theory Spec2Isabelle
  imports Complex_Main "HOL-Library.Multiset"
begin

section \<open>Timeline span renderer (TimelineTrackCanvasBaseDrawer)\<close>

text \<open>
  JavaScript numbers that carry times, pixels and widths are idealised as real numbers:
  the comparisons and the control flow are those of the source, rounding is not modelled.
\<close>

subsection \<open>Spans and the per-draw context\<close>

record Span =
  beginMs :: real
  endMs :: real
  scopeHash :: nat
  alpha :: real

text \<open>The fields \<open>begin\<close> and \<open>end\<close> of TimelineTrackContext are the view range.\<close>

record TimelineTrackContext =
  ctx_begin :: real
  ctx_end :: real
  msToPixelsFactor :: real
  search :: string

subsection \<open>The range search\<close>

text \<open>
  \<open>binarySearch\<close> is the function exported by the package \<open>binary-search\<close> that the drawer
  imports, called with the default bounds \<open>low = 0\<close> and \<open>high = haystack.length - 1\<close>:
  \<^verbatim>\<open>
  while(low <= high) {
    mid = low + ((high - low) >>> 1);
    cmp = +comparator(haystack[mid], needle, mid, haystack);
    if(cmp < 0.0) low = mid + 1;
    else if(cmp > 0.0) high = mid - 1;
    else return mid;
  }
  return ~low;
  \<close>
  On 32-bit integers \<open>~low\<close> is \<open>- low - 1\<close>.
\<close>

function binarySearch_loop :: "'a list \<Rightarrow> 'b \<Rightarrow> ('a \<Rightarrow> 'b \<Rightarrow> int) \<Rightarrow> int \<Rightarrow> int \<Rightarrow> int" where
  "binarySearch_loop haystack needle comparator low high =
     (if low \<le> high then
        (if comparator (haystack ! nat (low + (high - low) div 2)) needle < 0
         then binarySearch_loop haystack needle comparator (low + (high - low) div 2 + 1) high
         else if comparator (haystack ! nat (low + (high - low) div 2)) needle > 0
         then binarySearch_loop haystack needle comparator low (low + (high - low) div 2 - 1)
         else low + (high - low) div 2)
      else - low - 1)"
  by pat_completeness auto
termination
  by (relation "measure (\<lambda>(haystack, needle, comparator, low, high). nat (high - low + 1))") auto

definition binarySearch :: "'a list \<Rightarrow> 'b \<Rightarrow> ('a \<Rightarrow> 'b \<Rightarrow> int) \<Rightarrow> int" where
  "binarySearch haystack needle comparator =
     binarySearch_loop haystack needle comparator 0 (int (length haystack) - 1)"

text \<open>The two comparators of drawSpanTrack.\<close>

definition firstSpanComparator :: "Span \<Rightarrow> real \<Rightarrow> int" where
  "firstSpanComparator sp needle =
     (if endMs sp < needle then - 1 else if beginMs sp > needle then 1 else 0)"

definition lastSpanComparator :: "Span \<Rightarrow> real \<Rightarrow> int" where
  "lastSpanComparator sp needle =
     (if beginMs sp < needle then - 1 else if endMs sp > needle then 1 else 0)"

text \<open>\<open>if (firstSpan < 0) firstSpan = ~firstSpan\<close>, and the same for \<open>lastSpan\<close>.\<close>

definition flipNegative :: "int \<Rightarrow> int" where
  "flipNegative i = (if i < 0 then - i - 1 else i)"

definition firstSpan :: "real \<Rightarrow> Span list \<Rightarrow> TimelineTrackContext \<Rightarrow> int" where
  "firstSpan processOffsetMs spans tc =
     flipNegative (binarySearch spans (ctx_begin tc - processOffsetMs) firstSpanComparator)"

definition lastSpan :: "real \<Rightarrow> Span list \<Rightarrow> TimelineTrackContext \<Rightarrow> int" where
  "lastSpan processOffsetMs spans tc =
     flipNegative (binarySearch spans (ctx_end tc - processOffsetMs) lastSpanComparator)"

text \<open>
  The indices that the loop
  \<open>for (let spanIndex = firstSpan; spanIndex < lastSpan; spanIndex += 1)\<close> runs through.
\<close>

definition visitedSpans :: "real \<Rightarrow> Span list \<Rightarrow> TimelineTrackContext \<Rightarrow> int list" where
  "visitedSpans processOffsetMs spans tc =
     [firstSpan processOffsetMs spans tc .. lastSpan processOffsetMs spans tc - 1]"

subsection \<open>The canvas\<close>

text \<open>
  The 2D context is modelled by the attributes the drawer sets and by the list of the
  drawing calls made so far, each recorded with the attributes in force:
  \<open>FillRect fillStyle globalAlpha x y w h\<close> and \<open>FillText fillStyle font globalAlpha text x y\<close>.
  \<open>save\<close> and \<open>restore\<close> push and pop the attributes.
\<close>

datatype draw_op =
  FillRect string real real real real real
| FillText string string real string real real

record Canvas =
  fillStyle :: string
  font :: string
  globalAlpha :: real
  saved :: "(string \<times> string \<times> real) list"
  ops :: "draw_op list"

definition fillRect :: "real \<Rightarrow> real \<Rightarrow> real \<Rightarrow> real \<Rightarrow> Canvas \<Rightarrow> Canvas" where
  "fillRect x y w h c = c\<lparr>ops := ops c @ [FillRect (fillStyle c) (globalAlpha c) x y w h]\<rparr>"

definition fillText :: "string \<Rightarrow> real \<Rightarrow> real \<Rightarrow> Canvas \<Rightarrow> Canvas" where
  "fillText txt x y c =
     c\<lparr>ops := ops c @ [FillText (fillStyle c) (font c) (globalAlpha c) txt x y]\<rparr>"

definition save :: "Canvas \<Rightarrow> Canvas" where
  "save c = c\<lparr>saved := (fillStyle c, font c, globalAlpha c) # saved c\<rparr>"

definition restore :: "Canvas \<Rightarrow> Canvas" where
  "restore c =
     (case saved c of
        [] \<Rightarrow> c
      | (fs, fnt, ga) # rest \<Rightarrow> c\<lparr>fillStyle := fs, font := fnt, globalAlpha := ga, saved := rest\<rparr>)"

text \<open>
  What the drawer reads from outside itself: its own \<open>processOffsetMs\<close>, the scope table of
  the state store (scope hash to scope name), \<open>measureText\<close> of the canvas (font and text to
  width and to \<open>actualBoundingBoxAscent\<close>), the constant \<open>spanPixelHeight\<close> and
  \<open>formatExecutionTime\<close>.
\<close>

record Drawer =
  processOffsetMs :: real
  scopes :: "nat \<rightharpoonup> string"
  measureText :: "string \<Rightarrow> string \<Rightarrow> real"
  measureAscent :: "string \<Rightarrow> string \<Rightarrow> real"
  spanPixelHeight :: real
  formatExecutionTime :: "real \<Rightarrow> string"

subsection \<open>Colours\<close>

definition getIndexColor :: "nat \<Rightarrow> string" where
  "getIndexColor trackIndex = (if trackIndex mod 2 = 0 then ''#fea446'' else ''#fede99'')"

definition hexDigit :: "char \<Rightarrow> nat option" where
  "hexDigit c = map_of (zip ''0123456789abcdef'' [0 ..< 16] @ zip ''ABCDEF'' [10 ..< 16]) c"

text \<open>
  \<open>parseInt(s, 16)\<close> on the digits of a colour: the value of the longest prefix of
  hexadecimal digits, NaN (here \<open>None\<close>) when there is none.
\<close>

fun parseHexFrom :: "nat \<Rightarrow> string \<Rightarrow> nat" where
  "parseHexFrom acc [] = acc"
| "parseHexFrom acc (c # cs) =
     (case hexDigit c of None \<Rightarrow> acc | Some d \<Rightarrow> parseHexFrom (16 * acc + d) cs)"

definition parseInt16 :: "string \<Rightarrow> nat option" where
  "parseInt16 s =
     (case s of
        [] \<Rightarrow> None
      | c # cs \<Rightarrow> (case hexDigit c of None \<Rightarrow> None | Some d \<Rightarrow> Some (parseHexFrom d cs)))"

definition substring :: "nat \<Rightarrow> nat \<Rightarrow> string \<Rightarrow> string" where
  "substring a b s = take (max a b - min a b) (drop (min a b) s)"

definition hexChar :: "nat \<Rightarrow> char" where
  "hexChar d = ''0123456789abcdef'' ! (d mod 16)"

text \<open>\<open>r.toString(16)\<close> for an integer \<open>r\<close>.\<close>

fun hexDigits :: "nat \<Rightarrow> string" where
  "hexDigits n = (if n < 16 then [hexChar n] else hexDigits (n div 16) @ [hexChar (n mod 16)])"

definition toString16 :: "int \<Rightarrow> string" where
  "toString16 v = (if v < 0 then CHR ''-'' # hexDigits (nat (- v)) else hexDigits (nat v))"

text \<open>
  One channel of shadeColor: \<open>Math.round(r / decimal)\<close>, capped by \<open>r < 255 ? r : 255\<close>
  (which also turns NaN and Infinity into 255), then \<open>toString(16)\<close>, with a leading zero
  when it has one digit.
\<close>

definition shadeChannel :: "nat option \<Rightarrow> real \<Rightarrow> string" where
  "shadeChannel r decimal =
     (let v = (case r of
                 None \<Rightarrow> 255
               | Some n \<Rightarrow>
                   if decimal = 0 then 255
                   else if \<lfloor>real n / decimal + 1 / 2\<rfloor> < 255
                   then \<lfloor>real n / decimal + 1 / 2\<rfloor> else 255)
      in if length (toString16 v) = 1 then CHR ''0'' # toString16 v else toString16 v)"

definition shadeColor :: "string \<Rightarrow> real \<Rightarrow> string" where
  "shadeColor color decimal =
     (let base = (if take 1 color = ''#'' then 1 else 0) in
      CHR ''#'' # shadeChannel (parseInt16 (substring base 3 color)) decimal
        @ shadeChannel (parseInt16 (substring (base + 2) 5 color)) decimal
        @ shadeChannel (parseInt16 (substring (base + 4) 7 color)) decimal)"

definition drawSpanLeftMarker :: "Drawer \<Rightarrow> string \<Rightarrow> real \<Rightarrow> real \<Rightarrow> real \<Rightarrow> Canvas \<Rightarrow> Canvas" where
  "drawSpanLeftMarker d color callWidth beginPixels offsetY c =
     (if callWidth \<ge> 8
      then restore (fillRect beginPixels offsetY 1 (spanPixelHeight d)
             ((save c)\<lparr>fillStyle := shadeColor color 1.04\<rparr>))
      else c)"

subsection \<open>Captions\<close>

record TimelineCaptionItem =
  "value" :: string
  item_font :: "string option"
  item_color :: "string option"
  skippable :: bool

text \<open>\<open>caption.split("::")\<close>: the pieces between the non-overlapping occurrences of the separator, from the left.\<close>

fun splitColons :: "string \<Rightarrow> string \<Rightarrow> string list" where
  "splitColons acc [] = [rev acc]"
| "splitColons acc [c] = [rev (c # acc)]"
| "splitColons acc (c # d # cs) =
     (if c = CHR '':'' \<and> d = CHR '':'' then rev acc # splitColons [] cs
      else splitColons (c # acc) (d # cs))"

text \<open>
  The loop \<open>while ((current = split.shift()))\<close>: it stops at the end of the array and at the
  first empty piece (the empty string is falsy); a piece is in the main colour when nothing
  is left after it.
\<close>

fun captionTail :: "string list \<Rightarrow> TimelineCaptionItem list" where
  "captionTail [] = []"
| "captionTail (current # rest) =
     (if current = [] then []
      else \<lparr>value = ''::'' @ current, item_font = Some ''15px arial'',
             item_color = Some (if length rest > 0 then ''#4d4d4d'' else ''#000000''),
             skippable = False\<rparr> # captionTail rest)"

definition getCaptions :: "Drawer \<Rightarrow> string \<Rightarrow> real \<Rightarrow> real \<Rightarrow> TimelineCaptionItem list" where
  "getCaptions d caption beginSpan endSpan =
     (case splitColons [] caption of
        first # second # rest \<Rightarrow>
          \<lparr>value = first, item_font = Some ''15px arial'', item_color = Some ''#4d4d4d'',
            skippable = False\<rparr> # captionTail (second # rest)
      | _ \<Rightarrow> [\<lparr>value = caption, item_font = None, item_color = Some ''#000000'',
               skippable = False\<rparr>])
     @ [\<lparr>value = ''  ('' @ formatExecutionTime d (endSpan - beginSpan) @ '')'',
         item_font = Some ''12px arial'', item_color = Some ''#4d4d4d'', skippable = True\<rparr>]"

subsection \<open>writeText\<close>

text \<open>
  \<open>Math.floor(width / characterWidth)\<close>. The division by a zero character width is not a
  real number in JavaScript, so the budget has the three other values as well.
\<close>

datatype budget = BNaN | BNegInfinity | BFinite int | BInfinity

definition budgetOf :: "real \<Rightarrow> real \<Rightarrow> budget" where
  "budgetOf width characterWidth =
     (if characterWidth = 0
      then (if width = 0 then BNaN else if width > 0 then BInfinity else BNegInfinity)
      else BFinite \<lfloor>width / characterWidth\<rfloor>)"

text \<open>\<open>!budget\<close>\<close>

definition budgetFalsy :: "budget \<Rightarrow> bool" where
  "budgetFalsy b = (b = BNaN \<or> b = BFinite 0)"

text \<open>\<open>value.length > budget\<close>\<close>

definition longerThan :: "string \<Rightarrow> budget \<Rightarrow> bool" where
  "longerThan v b =
     (case b of
        BNaN \<Rightarrow> False
      | BNegInfinity \<Rightarrow> True
      | BFinite n \<Rightarrow> int (length v) > n
      | BInfinity \<Rightarrow> False)"

text \<open>\<open>value.slice(0, budget)\<close>: a negative end counts from the end of the string.\<close>

definition sliceTo :: "string \<Rightarrow> budget \<Rightarrow> string" where
  "sliceTo v b =
     (case b of
        BNaN \<Rightarrow> []
      | BNegInfinity \<Rightarrow> []
      | BFinite n \<Rightarrow> (if n < 0 then take (nat (int (length v) + n)) v else take (nat n) v)
      | BInfinity \<Rightarrow> v)"

text \<open>\<open>color || defaultFillStyle\<close> and \<open>font || defaultFont\<close>\<close>

definition orDefault :: "string option \<Rightarrow> string \<Rightarrow> string" where
  "orDefault x dflt = (case x of None \<Rightarrow> dflt | Some s \<Rightarrow> if s = [] then dflt else s)"

text \<open>The body of the loop over the caption items, with \<open>break\<close> and \<open>continue\<close> as the source has them.\<close>

fun writeTextLoop ::
  "Drawer \<Rightarrow> string \<Rightarrow> string \<Rightarrow> real \<Rightarrow> TimelineCaptionItem list \<Rightarrow> real \<Rightarrow> real \<Rightarrow> real \<Rightarrow>
     Canvas \<Rightarrow> Canvas" where
  "writeTextLoop d defaultFillStyle defaultFont characterWidth [] width x y c = c"
| "writeTextLoop d defaultFillStyle defaultFont characterWidth (item # items) width x y c =
     (let c1 = c\<lparr>fillStyle := orDefault (item_color item) defaultFillStyle,
                 font := orDefault (item_font item) defaultFont\<rparr>;
          budget = budgetOf width characterWidth
      in if budgetFalsy budget then c1
         else if longerThan (value item) budget \<and> skippable item
         then writeTextLoop d defaultFillStyle defaultFont characterWidth items width x y c1
         else
           let textSlice = sliceTo (value item) budget;
               c2 = fillText textSlice x y c1;
               size = measureText d (font c2) textSlice
           in writeTextLoop d defaultFillStyle defaultFont characterWidth items
                (width - size) (x + size) y c2)"

definition writeText ::
  "Drawer \<Rightarrow> real \<Rightarrow> real \<Rightarrow> TimelineCaptionItem list \<Rightarrow> real \<Rightarrow> real \<Rightarrow> Canvas \<Rightarrow> Canvas" where
  "writeText d width characterWidth items x y c =
     restore (writeTextLoop d (fillStyle c) (font c) characterWidth items width x y (save c))"

text \<open>The texts that a canvas has been asked to draw, in order.\<close>

fun drawnTexts :: "draw_op list \<Rightarrow> string list" where
  "drawnTexts [] = []"
| "drawnTexts (FillRect fs ga x y w h # rest) = drawnTexts rest"
| "drawnTexts (FillText fs fnt ga txt x y # rest) = txt # drawnTexts rest"

subsection \<open>drawSpanTrack\<close>

text \<open>
  The only exception the loop can raise: \<open>const { name } = scopes[span.scopeHash]\<close> on a hash
  without an entry (and a read of a span beyond the array). It is returned with the canvas
  as the exception leaves it. \<open>RequestError\<close> is a rejected request of the streamer.
\<close>

datatype error = TypeError | RequestError

record SpanTrack =
  spans :: "Span list"

definition toLowerChar :: "char \<Rightarrow> char" where
  "toLowerChar c =
     (if 65 \<le> (of_char c :: nat) \<and> (of_char c :: nat) \<le> 90 then char_of (of_char c + (32 :: nat)) else c)"

definition toLowerCase :: "string \<Rightarrow> string" where
  "toLowerCase s = map toLowerChar s"

fun includesStr :: "string \<Rightarrow> string \<Rightarrow> bool" where
  "includesStr [] t = (t = [])"
| "includesStr (c # cs) t = (take (length t) (c # cs) = t \<or> includesStr cs t)"

definition beginPixels :: "Drawer \<Rightarrow> TimelineTrackContext \<Rightarrow> Span \<Rightarrow> real" where
  "beginPixels d tc sp = (beginMs sp + processOffsetMs d - ctx_begin tc) * msToPixelsFactor tc"

definition endPixels :: "Drawer \<Rightarrow> TimelineTrackContext \<Rightarrow> Span \<Rightarrow> real" where
  "endPixels d tc sp = (endMs sp + processOffsetMs d - ctx_begin tc) * msToPixelsFactor tc"

definition callWidth :: "Drawer \<Rightarrow> TimelineTrackContext \<Rightarrow> Span \<Rightarrow> real" where
  "callWidth d tc sp = endPixels d tc sp - beginPixels d tc sp"

text \<open>The body of the loop for one span.\<close>

definition drawSpan ::
  "Drawer \<Rightarrow> nat \<Rightarrow> TimelineTrackContext \<Rightarrow> real \<Rightarrow> real \<Rightarrow> Span \<Rightarrow> Canvas \<Rightarrow>
     (error \<times> Canvas) + Canvas" where
  "drawSpan d trackIndex tc characterWidth characterHeight sp c =
     (let offsetY = real trackIndex * spanPixelHeight d;
          color = getIndexColor trackIndex
      in if callWidth d tc sp < 0.1 then Inr c
         else
           let c1 = c\<lparr>globalAlpha := alpha sp / 255\<rparr> in
           if scopeHash sp \<noteq> 0 then
             (case scopes d (scopeHash sp) of
                None \<Rightarrow> Inl (TypeError, c1)
              | Some name \<Rightarrow>
                  let c2 = c1\<lparr>fillStyle :=
                             (if search tc \<noteq> [] \<and> includesStr (toLowerCase name) (toLowerCase (search tc))
                              then ''#ffee59'' else color)\<rparr>;
                      c3 = fillRect (beginPixels d tc sp) offsetY (callWidth d tc sp) (spanPixelHeight d) c2;
                      c4 = drawSpanLeftMarker d (fillStyle c3) (callWidth d tc sp) (beginPixels d tc sp)
                             offsetY c3;
                      c5 = (if callWidth d tc sp > characterWidth * 5
                            then writeText d (callWidth d tc sp) characterWidth
                                   (getCaptions d name (beginMs sp + processOffsetMs d)
                                      (endMs sp + processOffsetMs d))
                                   (beginPixels d tc sp + 5)
                                   (offsetY + characterHeight + 0.5 * (spanPixelHeight d - characterHeight))
                                   (c4\<lparr>fillStyle := ''#000000''\<rparr>)
                            else c4)
                  in Inr (c5\<lparr>globalAlpha := 1\<rparr>))
           else
             Inr ((fillRect (beginPixels d tc sp) offsetY (callWidth d tc sp) (spanPixelHeight d)
                     (c1\<lparr>fillStyle := color\<rparr>))\<lparr>globalAlpha := 1\<rparr>))"

text \<open>The loop over the span indices; an exception ends it.\<close>

fun drawSpans ::
  "Drawer \<Rightarrow> nat \<Rightarrow> TimelineTrackContext \<Rightarrow> real \<Rightarrow> real \<Rightarrow> Span list \<Rightarrow> int list \<Rightarrow> Canvas \<Rightarrow>
     (error \<times> Canvas) + Canvas" where
  "drawSpans d trackIndex tc characterWidth characterHeight sps [] c = Inr c"
| "drawSpans d trackIndex tc characterWidth characterHeight sps (spanIndex # rest) c =
     (if 0 \<le> spanIndex \<and> spanIndex < int (length sps)
      then (case drawSpan d trackIndex tc characterWidth characterHeight (sps ! nat spanIndex) c of
              Inl e \<Rightarrow> Inl e
            | Inr c' \<Rightarrow> drawSpans d trackIndex tc characterWidth characterHeight sps rest c')
      else Inl (TypeError, c))"

text \<open>\<open>this.ctx\<close> may be undefined: then drawSpanTrack returns at once.\<close>

definition drawSpanTrack ::
  "Drawer \<Rightarrow> nat \<Rightarrow> SpanTrack \<Rightarrow> TimelineTrackContext \<Rightarrow> Canvas option \<Rightarrow>
     (error \<times> Canvas) + Canvas option" where
  "drawSpanTrack d trackIndex track tc ctx =
     (case ctx of
        None \<Rightarrow> Inr None
      | Some c \<Rightarrow>
          (case drawSpans d trackIndex tc
                  (measureText d (font c) ''<>_w'' / 4) (measureAscent d (font c) ''<>_w'')
                  (spans track) (visitedSpans (processOffsetMs d) (spans track) tc) c of
             Inl e \<Rightarrow> Inl e
           | Inr c' \<Rightarrow> Inr (Some c')))"

section \<open>Metric streamer (MetricStreamer)\<close>

subsection \<open>Numbers with the infinities\<close>

text \<open>
  The streamer starts from \<open>-Infinity\<close> and \<open>Infinity\<close> and takes \<open>Math.min\<close> and \<open>Math.max\<close> of
  spread arrays, so its numbers keep the three values that are not real numbers.
\<close>

datatype number = NaN | NegInfinity | Finite real | Infinity

text \<open>The comparison \<open>a < b\<close> of JavaScript: false as soon as one side is NaN.\<close>

fun num_less :: "number \<Rightarrow> number \<Rightarrow> bool" where
  "num_less NaN b = False"
| "num_less a NaN = False"
| "num_less a NegInfinity = False"
| "num_less NegInfinity b = True"
| "num_less Infinity b = False"
| "num_less (Finite x) Infinity = True"
| "num_less (Finite x) (Finite y) = (x < y)"

text \<open>
  \<open>Math.min(...xs)\<close> and \<open>Math.max(...xs)\<close>: NaN when an argument is NaN, otherwise the least
  (greatest) argument; with no argument they return \<open>Infinity\<close> and \<open>-Infinity\<close>.
\<close>

definition min2 :: "number \<Rightarrow> number \<Rightarrow> number" where
  "min2 lowest x = (if lowest = NaN \<or> x = NaN then NaN else if num_less x lowest then x else lowest)"

definition max2 :: "number \<Rightarrow> number \<Rightarrow> number" where
  "max2 highest x = (if highest = NaN \<or> x = NaN then NaN else if num_less highest x then x else highest)"

definition Math_min :: "number list \<Rightarrow> number" where
  "Math_min xs = foldl min2 Infinity xs"

definition Math_max :: "number list \<Rightarrow> number" where
  "Math_max xs = foldl max2 NegInfinity xs"

subsection \<open>Messages of the analytics service that the streamer reads\<close>

record BlockRef =
  blockId :: string
  streamId :: string

record MetricDesc =
  desc_name :: string

record BlockManifest =
  metrics :: "MetricDesc list"

text \<open>What a fetch of block data ends with: a reply, nothing (no client), or a rejection.\<close>

datatype 'd reply = Data 'd | NoData | Rejected

subsection \<open>MetricState and MetricStore\<close>

text \<open>
  The classes MetricState and MetricStore are imported by the streamer. Their operations are
  parameters of the model: the constructor of MetricState, its \<open>registerBlock(manifest)\<close>,
  its fields \<open>name\<close>, \<open>min\<close> and \<open>max\<close>, \<open>canBeDisplayed\<close> and \<open>requestMissingBlocks\<close>, and
  \<open>registerMetrics\<close> and \<open>registerBlock\<close> of the store, whose content is a list of metric
  states.
\<close>

record ('m, 'd) MetricOps =
  newMetricState :: "MetricDesc \<Rightarrow> 'm"
  registerManifest :: "BlockManifest \<Rightarrow> 'm \<Rightarrow> 'm"
  nameOf :: "'m \<Rightarrow> string"
  minOf :: "'m \<Rightarrow> number"
  maxOf :: "'m \<Rightarrow> number"
  canBeDisplayed :: "'m \<Rightarrow> bool"
  requestMissingBlocks :: "'m \<Rightarrow> number \<Rightarrow> number \<Rightarrow> nat \<Rightarrow> BlockRef list"
  storeRegisterMetrics :: "'m list \<Rightarrow> 'm list \<Rightarrow> 'm list"
  storeRegisterBlock :: "'d \<Rightarrow> string \<Rightarrow> string \<Rightarrow> 'm list \<Rightarrow> 'm list"

subsection \<open>The streamer and its gate\<close>

text \<open>One call of the callback of \<open>metric.blocks.forEach\<close>: a block of a metric at a level of detail.\<close>

record FetchTask =
  task_metric :: string
  task_block :: BlockRef
  task_lod :: nat

text \<open>
  Modelled from the spec: the class Semaphore comes from the package
  \<open>semaphore-async-await\<close> and is not among the sources. The spec describes the gate as a
  counting resource gate of fixed capacity: \<open>acquire\<close> suspends the caller until a unit is
  free, the callers that wait are served first in, first out, and \<open>release\<close> always succeeds.
  The field \<open>semaphore\<close> of the streamer is the count of the free units (\<open>permits\<close>) and the
  queue of the tasks that wait (\<open>waiting\<close>). Beside it the state holds the tasks that have
  acquired a unit and have not released it (\<open>inFlight\<close>), the requests sent to the service
  so far, and whether the client exists.
\<close>

record 'm MetricStreamer =
  currentMinMs :: number
  currentMaxMs :: number
  metricStore :: "'m list"
  client :: bool
  permits :: int
  waiting :: "FetchTask list"
  inFlight :: "FetchTask list"
  requests :: "FetchTask list"

text \<open>The constructor: \<open>new Semaphore(8)\<close>, no client yet.\<close>

definition newMetricStreamer :: "'m list \<Rightarrow> 'm MetricStreamer" where
  "newMetricStreamer store =
     \<lparr>currentMinMs = NegInfinity, currentMaxMs = Infinity, metricStore = store, client = False,
      permits = 8, waiting = [], inFlight = [], requests = []\<rparr>"

text \<open>
  A task that holds a unit goes on to \<open>this.client?.fetch_block_metric(...)\<close>, which sends a
  request when there is a client.
\<close>

definition startFetch :: "FetchTask \<Rightarrow> 'm MetricStreamer \<Rightarrow> 'm MetricStreamer" where
  "startFetch t s =
     s\<lparr>inFlight := inFlight s @ [t],
       requests := (if client s then requests s @ [t] else requests s)\<rparr>"

text \<open>
  Modelled from the spec: \<open>acquire\<close> takes a free unit, or puts the caller at the end of the
  queue when there is none.
\<close>

definition acquire :: "FetchTask \<Rightarrow> 'm MetricStreamer \<Rightarrow> 'm MetricStreamer" where
  "acquire t s =
     (if permits s > 0 then startFetch t (s\<lparr>permits := permits s - 1\<rparr>)
      else s\<lparr>waiting := waiting s @ [t]\<rparr>)"

text \<open>
  Modelled from the spec: \<open>release\<close> gives the unit to the first caller that waits, who goes
  on, or frees it when nobody waits.
\<close>

definition release :: "'m MetricStreamer \<Rightarrow> 'm MetricStreamer" where
  "release s =
     (case waiting s of
        [] \<Rightarrow> s\<lparr>permits := permits s + 1\<rparr>
      | t # rest \<Rightarrow> startFetch t (s\<lparr>waiting := rest\<rparr>))"

text \<open>
  The steps of initializeAsync after the manifests have arrived (\<open>None\<close> is a manifest that
  is undefined): the map from metric name to metric state, in insertion order.
\<close>

fun registerDesc ::
  "('m, 'd) MetricOps \<Rightarrow> BlockManifest \<Rightarrow> (string \<times> 'm) list \<Rightarrow> MetricDesc \<Rightarrow> (string \<times> 'm) list" where
  "registerDesc api blockManifest metricStates metricDesc =
     (let states1 = (case map_of metricStates (desc_name metricDesc) of
                       None \<Rightarrow> metricStates @ [(desc_name metricDesc, newMetricState api metricDesc)]
                     | Some m \<Rightarrow> metricStates)
      in map (\<lambda>(n, m). if n = desc_name metricDesc then (n, registerManifest api blockManifest m)
                       else (n, m)) states1)"

fun registerManifests ::
  "('m, 'd) MetricOps \<Rightarrow> BlockManifest option list \<Rightarrow> (string \<times> 'm) list \<Rightarrow> (string \<times> 'm) list" where
  "registerManifests api [] metricStates = metricStates"
| "registerManifests api (None # rest) metricStates = registerManifests api rest metricStates"
| "registerManifests api (Some blockManifest # rest) metricStates =
     registerManifests api rest
       (foldl (registerDesc api blockManifest) metricStates (metrics blockManifest))"

text \<open>
  initializeAsync creates the client first. \<open>None\<close> stands for a request of the listing or of
  a manifest that is rejected: the exception leaves initializeAsync with nothing else done.
\<close>

definition initializeAsync ::
  "('m, 'd) MetricOps \<Rightarrow> BlockManifest option list option \<Rightarrow> 'm MetricStreamer \<Rightarrow>
     (error \<times> 'm MetricStreamer) + 'm MetricStreamer" where
  "initializeAsync api replies s =
     (case replies of
        None \<Rightarrow> Inl (RequestError, s\<lparr>client := True\<rparr>)
      | Some blockManifests \<Rightarrow>
          let store = storeRegisterMetrics api (map snd (registerManifests api blockManifests []))
                        (metricStore s)
          in Inr (s\<lparr>client := True, metricStore := store,
                   currentMinMs := Math_min (map (minOf api) store),
                   currentMaxMs := Math_max (map (maxOf api) store)\<rparr>))"

text \<open>
  fetchSelectedMetrics. Every callback runs up to its \<open>await this.semaphore.acquire()\<close> before
  the next one starts, so the tasks call \<open>acquire\<close> in the order of the two \<open>forEach\<close>.
\<close>

definition missingBlocks ::
  "('m, 'd) MetricOps \<Rightarrow> nat \<Rightarrow> 'm MetricStreamer \<Rightarrow> (string \<times> BlockRef list) list" where
  "missingBlocks api lod s =
     map (\<lambda>m. (nameOf api m, requestMissingBlocks api m (currentMinMs s) (currentMaxMs s) lod))
       (filter (canBeDisplayed api) (metricStore s))"

definition fetchTasks :: "nat \<Rightarrow> (string \<times> BlockRef list) list \<Rightarrow> FetchTask list" where
  "fetchTasks lod missing =
     concat (map (\<lambda>(n, blocks).
        map (\<lambda>b. \<lparr>task_metric = n, task_block = b, task_lod = lod\<rparr>) blocks) missing)"

definition fetchSelectedMetrics ::
  "('m, 'd) MetricOps \<Rightarrow> nat \<Rightarrow> 'm MetricStreamer \<Rightarrow> 'm MetricStreamer" where
  "fetchSelectedMetrics api lod s =
     (if length (concat (map snd (missingBlocks api lod s))) = 0 then s
      else foldl (\<lambda>s' t. acquire t s') s (fetchTasks lod (missingBlocks api lod s)))"

definition tick :: "('m, 'd) MetricOps \<Rightarrow> nat \<Rightarrow> number \<Rightarrow> number \<Rightarrow> 'm MetricStreamer \<Rightarrow> 'm MetricStreamer" where
  "tick api lod mn mx s = fetchSelectedMetrics api lod (s\<lparr>currentMinMs := mn, currentMaxMs := mx\<rparr>)"

text \<open>
  The rest of a callback, run when the fetch of the \<open>i\<close>-th task in flight ends:
  \<open>registerBlock\<close> when there is block data, and \<open>release\<close> in the \<open>finally\<close> clause whatever the
  end was.
\<close>

definition settle ::
  "('m, 'd) MetricOps \<Rightarrow> nat \<Rightarrow> 'd reply \<Rightarrow> 'm MetricStreamer \<Rightarrow> 'm MetricStreamer" where
  "settle api i r s =
     (if i < length (inFlight s) then
        let t = inFlight s ! i;
            s1 = s\<lparr>inFlight := take i (inFlight s) @ drop (Suc i) (inFlight s)\<rparr>
        in release
             (case r of
                Data blockData \<Rightarrow>
                  s1\<lparr>metricStore :=
                       storeRegisterBlock api blockData (blockId (task_block t)) (task_metric t)
                         (metricStore s1)\<rparr>
              | NoData \<Rightarrow> s1
              | Rejected \<Rightarrow> s1)
      else s)"

text \<open>
  What can happen to a streamer, one callback at a time: the manifests arrive, the host
  calls \<open>tick\<close>, a fetch in flight ends.
\<close>

datatype 'd event =
  Initialize "BlockManifest option list option"
| Tick nat number number
| Settle nat "'d reply"

fun step :: "('m, 'd) MetricOps \<Rightarrow> 'm MetricStreamer \<Rightarrow> 'd event \<Rightarrow> 'm MetricStreamer" where
  "step api s (Initialize replies) =
     (case initializeAsync api replies s of Inl (e, s') \<Rightarrow> s' | Inr s' \<Rightarrow> s')"
| "step api s (Tick lod mn mx) = tick api lod mn mx s"
| "step api s (Settle i r) = settle api i r s"

definition run :: "('m, 'd) MetricOps \<Rightarrow> 'd event list \<Rightarrow> 'm MetricStreamer \<Rightarrow> 'm MetricStreamer" where
  "run api events s = foldl (step api) s events"

section \<open>Interval coverage tracker\<close>

text \<open>
  Modelled from the spec: the Interval Coverage Tracker (the class MetricState behind
  \<open>registerBlock\<close>) is not among the sources. The spec describes it so: it knows block
  references (block id, time range, level of detail) from the manifests; \<open>registerBlock(samples,
  blockId)\<close> marks the block materialized and merges its time range into the fetched coverage
  of its level of detail; the coverage of a level of detail is a sorted list of disjoint
  intervals with merge on insert. The samples are payload and are not kept in the model; a
  block id that no manifest has announced changes nothing.
\<close>

type_synonym interval = "real \<times> real"

record BlockReference =
  ref_blockId :: string
  ref_streamId :: string
  ref_startMs :: real
  ref_endMs :: real
  ref_lod :: nat

record CoverageTracker =
  known :: "BlockReference list"
  materialized :: "string set"
  coverage :: "nat \<Rightarrow> interval list"

text \<open>
  Modelled from the spec: merge on insert into a sorted list of disjoint closed intervals.
  An interval that lies before the head is put in front, one that lies after the head goes
  on into the tail, and one that meets the head absorbs it and goes on.
\<close>

fun mergeInterval :: "interval \<Rightarrow> interval list \<Rightarrow> interval list" where
  "mergeInterval (s, e) [] = [(s, e)]"
| "mergeInterval (s, e) ((s', e') # rest) =
     (if e < s' then (s, e) # (s', e') # rest
      else if e' < s then (s', e') # mergeInterval (s, e) rest
      else mergeInterval (min s s', max e e') rest)"

text \<open>Modelled from the spec: a tracker is created with its metric descriptor and has fetched nothing.\<close>

definition newTracker :: CoverageTracker where
  "newTracker = \<lparr>known = [], materialized = {}, coverage = (\<lambda>l. [])\<rparr>"

text \<open>Modelled from the spec: \<open>registerManifestBlock\<close> adds to the known blocks and marks nothing.\<close>

definition registerManifestBlock :: "BlockReference \<Rightarrow> CoverageTracker \<Rightarrow> CoverageTracker" where
  "registerManifestBlock b t = t\<lparr>known := known t @ [b]\<rparr>"

text \<open>Modelled from the spec: \<open>registerBlock(samples, blockId)\<close>.\<close>

definition registerBlock :: "'d \<Rightarrow> string \<Rightarrow> CoverageTracker \<Rightarrow> CoverageTracker" where
  "registerBlock samples bid t =
     (case find (\<lambda>b. ref_blockId b = bid) (known t) of
        None \<Rightarrow> t
      | Some b \<Rightarrow>
          t\<lparr>materialized := insert bid (materialized t),
            coverage := (coverage t)
              (ref_lod b := mergeInterval (ref_startMs b, ref_endMs b) (coverage t (ref_lod b)))\<rparr>)"

text \<open>A sequence of registrations, in the order of the list.\<close>

definition registerBlocks :: "('d \<times> string) list \<Rightarrow> CoverageTracker \<Rightarrow> CoverageTracker" where
  "registerBlocks regs t = foldl (\<lambda>t' (samples, bid). registerBlock samples bid t') t regs"

section \<open>Predicates used in the statements\<close>

text \<open>
  A track whose spans are well formed and strictly ordered: every span begins no later than
  it ends, and ends before every later span begins.
\<close>

definition track_ok :: "Span list \<Rightarrow> bool" where
  "track_ok sps \<longleftrightarrow>
     list_all (\<lambda>s. beginMs s \<le> endMs s) sps \<and> sorted_wrt (\<lambda>s t. endMs s < beginMs t) sps"

text \<open>
  The span at index \<open>i\<close>, moved by the process offset, meets the half-open view range
  \<open>[begin, end)\<close> of the context.
\<close>

definition inView :: "real \<Rightarrow> Span list \<Rightarrow> TimelineTrackContext \<Rightarrow> nat \<Rightarrow> bool" where
  "inView off sps tc i \<longleftrightarrow>
     ctx_begin tc \<le> endMs (sps ! i) + off \<and> beginMs (sps ! i) + off < ctx_end tc"

text \<open>
  The span at index \<open>i\<close>, moved by the process offset, meets the closed view range
  \<open>[begin, end]\<close> of the context.
\<close>

definition intersectsView :: "real \<Rightarrow> Span list \<Rightarrow> TimelineTrackContext \<Rightarrow> nat \<Rightarrow> bool" where
  "intersectsView off sps tc i \<longleftrightarrow>
     ctx_begin tc \<le> endMs (sps ! i) + off \<and> beginMs (sps ! i) + off \<le> ctx_end tc"

text \<open>
  A span that the loop draws (its width is not below 0.1) and whose scope hash is not zero
  and has no entry in the scope table.
\<close>

definition missingScope :: "Drawer \<Rightarrow> TimelineTrackContext \<Rightarrow> Span \<Rightarrow> bool" where
  "missingScope d tc sp \<longleftrightarrow>
     \<not> callWidth d tc sp < 0.1 \<and> scopeHash sp \<noteq> 0 \<and> scopes d (scopeHash sp) = None"

text \<open>
  A comparator is ordered on a window of indices when the elements it finds too low come
  first, the ones it finds too high come last, and at most one element matches.
\<close>

definition ordered_window :: "(int \<Rightarrow> int) \<Rightarrow> int \<Rightarrow> int \<Rightarrow> bool" where
  "ordered_window g low high \<longleftrightarrow>
     (\<forall>i j. low \<le> i \<and> i \<le> j \<and> j \<le> high \<and> g j < 0 \<longrightarrow> g i < 0) \<and>
     (\<forall>i j. low \<le> i \<and> i \<le> j \<and> j \<le> high \<and> g i > 0 \<longrightarrow> g j > 0) \<and>
     (\<forall>i j. low \<le> i \<and> i < j \<and> j \<le> high \<and> g i = 0 \<longrightarrow> g j \<noteq> 0)"

text \<open>The index \<open>r\<close> splits the window: too low before it, not too low from it on.\<close>

definition window_split :: "(int \<Rightarrow> int) \<Rightarrow> int \<Rightarrow> int \<Rightarrow> int \<Rightarrow> bool" where
  "window_split g low high r \<longleftrightarrow>
     low \<le> r \<and> r \<le> high + 1 \<and>
     (\<forall>i. low \<le> i \<and> i < r \<longrightarrow> g i < 0) \<and> (\<forall>i. r \<le> i \<and> i \<le> high \<longrightarrow> g i \<ge> 0)"

text \<open>
  The gate is in order: the count of the free units is not negative, the free units and the
  holders add up to the capacity, and nobody waits while a unit is free.
\<close>

definition gate_ok :: "'m MetricStreamer \<Rightarrow> bool" where
  "gate_ok s \<longleftrightarrow>
     0 \<le> permits s \<and> permits s + int (length (inFlight s)) = 8 \<and>
     (waiting s = [] \<or> permits s = 0)"

text \<open>
  A coverage list is in order: every interval is well formed and ends before every later
  one begins. The points it covers.
\<close>

definition canonical :: "interval list \<Rightarrow> bool" where
  "canonical xs \<longleftrightarrow>
     list_all (\<lambda>(s, e). s \<le> e) xs \<and> sorted_wrt (\<lambda>(s, e) (s', e'). e < s') xs"

definition covered :: "interval list \<Rightarrow> real set" where
  "covered xs = (\<Union>(s, e) \<in> set xs. {s .. e})"

text \<open>
  A tracker is in order: every coverage list is, and every known block has a time range
  that begins no later than it ends.
\<close>

definition tracker_ok :: "CoverageTracker \<Rightarrow> bool" where
  "tracker_ok t \<longleftrightarrow>
     (\<forall>l. canonical (coverage t l)) \<and> list_all (\<lambda>b. ref_startMs b \<le> ref_endMs b) (known t)"

text \<open>
  What the registration of a block id adds to a tracker that knows the blocks \<open>bs\<close>: the
  points of its time range at its level of detail, and its mark.
\<close>

definition blockPoints :: "BlockReference list \<Rightarrow> nat \<Rightarrow> string \<Rightarrow> real set" where
  "blockPoints bs l bid =
     (case find (\<lambda>b. ref_blockId b = bid) bs of
        None \<Rightarrow> {}
      | Some b \<Rightarrow> if ref_lod b = l then {ref_startMs b .. ref_endMs b} else {})"

definition blockMarks :: "BlockReference list \<Rightarrow> string \<Rightarrow> string set" where
  "blockMarks bs bid =
     (case find (\<lambda>b. ref_blockId b = bid) bs of None \<Rightarrow> {} | Some b \<Rightarrow> {bid})"

section \<open>Concrete inputs\<close>

text \<open>The track and the viewport of the five-span scenario.\<close>

definition mkSpan :: "real \<Rightarrow> real \<Rightarrow> nat \<Rightarrow> Span" where
  "mkSpan b e h = \<lparr>beginMs = b, endMs = e, scopeHash = h, alpha = 255\<rparr>"

definition mkView :: "real \<Rightarrow> real \<Rightarrow> TimelineTrackContext" where
  "mkView a b = \<lparr>ctx_begin = a, ctx_end = b, msToPixelsFactor = 1, search = ''''\<rparr>"

definition scenarioSpans :: "Span list" where
  "scenarioSpans = [mkSpan 0 5 0, mkSpan 10 15 0, mkSpan 20 25 0, mkSpan 30 35 0, mkSpan 40 45 0]"

text \<open>
  A drawer whose canvas gives every character a width of 10 pixels, with an empty scope
  table, and a canvas on which nothing has been drawn.
\<close>

definition testDrawer :: Drawer where
  "testDrawer = \<lparr>processOffsetMs = 0, scopes = Map.empty,
     measureText = (\<lambda>fnt txt. 10 * real (length txt)), measureAscent = (\<lambda>fnt txt. 10),
     spanPixelHeight = 20, formatExecutionTime = (\<lambda>ms. ''1 ms'')\<rparr>"

definition blankCanvas :: Canvas where
  "blankCanvas = \<lparr>fillStyle = ''#000000'', font = ''15px arial'', globalAlpha = 1, saved = [], ops = []\<rparr>"

text \<open>
  A metric state for the examples: it reports as missing the blocks it lists, and the store
  removes a block from that list when it is registered. \<open>registerMetrics\<close> keeps the metrics
  that are present and adds the others.
\<close>

record TestMetric =
  tm_name :: string
  tm_min :: number
  tm_max :: number
  tm_missing :: "BlockRef list"

definition testOps :: "(TestMetric, string) MetricOps" where
  "testOps =
     \<lparr>newMetricState = (\<lambda>metricDesc. \<lparr>tm_name = desc_name metricDesc, tm_min = Infinity,
                           tm_max = NegInfinity, tm_missing = []\<rparr>),
      registerManifest = (\<lambda>blockManifest m. m),
      nameOf = tm_name, minOf = tm_min, maxOf = tm_max,
      canBeDisplayed = (\<lambda>m. True),
      requestMissingBlocks = (\<lambda>m mn mx lod. tm_missing m),
      storeRegisterMetrics = (\<lambda>new old. old @ filter (\<lambda>m. tm_name m \<notin> set (map tm_name old)) new),
      storeRegisterBlock = (\<lambda>blockData bid metricName store.
         map (\<lambda>m. if tm_name m = metricName
                   then m\<lparr>tm_missing := filter (\<lambda>b. blockId b \<noteq> bid) (tm_missing m)\<rparr>
                   else m) store)\<rparr>"

definition mkBlock :: "string \<Rightarrow> BlockRef" where
  "mkBlock bid = \<lparr>blockId = bid, streamId = ''s''\<rparr>"

text \<open>A metric with nine missing blocks, and one with none.\<close>

definition nineBlocks :: TestMetric where
  "nineBlocks = \<lparr>tm_name = ''cpu'', tm_min = Finite 0, tm_max = Finite 100,
     tm_missing = map mkBlock [''b1'', ''b2'', ''b3'', ''b4'', ''b5'', ''b6'', ''b7'', ''b8'', ''b9'']\<rparr>"

definition noBlocks :: TestMetric where
  "noBlocks = \<lparr>tm_name = ''mem'', tm_min = Finite 0, tm_max = Finite 100, tm_missing = []\<rparr>"

text \<open>A tracker that knows three blocks at level of detail 0 and has fetched nothing.\<close>

definition mkRef :: "string \<Rightarrow> real \<Rightarrow> real \<Rightarrow> BlockReference" where
  "mkRef bid a b = \<lparr>ref_blockId = bid, ref_streamId = ''s'', ref_startMs = a, ref_endMs = b, ref_lod = 0\<rparr>"

definition freshTracker :: CoverageTracker where
  "freshTracker = \<lparr>known = [mkRef ''a'' 0 10, mkRef ''b'' 5 20, mkRef ''c'' 30 40],
     materialized = {}, coverage = (\<lambda>l. [])\<rparr>"

definition twoBlocks :: TestMetric where
  "twoBlocks = \<lparr>tm_name = ''gpu'', tm_min = Finite 0, tm_max = Finite 100,
     tm_missing = map mkBlock [''g1'', ''g2'']\<rparr>"

text \<open>
  A streamer after one tick that finds the nine blocks missing (eight fetches in flight, one
  waiting), and one after a tick that finds two blocks missing (nobody waits).
\<close>

definition quietStreamer :: "TestMetric MetricStreamer" where
  "quietStreamer = run testOps [Tick 0 (Finite 0) (Finite 100)] (newMetricStreamer [twoBlocks])"

definition busyStreamer :: "TestMetric MetricStreamer" where
  "busyStreamer = run testOps [Tick 0 (Finite 0) (Finite 100)] (newMetricStreamer [nineBlocks, noBlocks])"

section \<open>The range search of drawSpanTrack\<close>

lemma bs_done: "\<not> low \<le> high \<Longrightarrow> binarySearch_loop h n c low high = - low - 1"
  by (subst binarySearch_loop.simps) simp

lemma bs_low:
  "low \<le> high \<Longrightarrow> c (h ! nat (low + (high - low) div 2)) n < 0 \<Longrightarrow>
   binarySearch_loop h n c low high = binarySearch_loop h n c (low + (high - low) div 2 + 1) high"
  by (subst binarySearch_loop.simps) simp

lemma bs_high:
  "low \<le> high \<Longrightarrow> c (h ! nat (low + (high - low) div 2)) n > 0 \<Longrightarrow>
   binarySearch_loop h n c low high = binarySearch_loop h n c low (low + (high - low) div 2 - 1)"
  by (subst binarySearch_loop.simps) simp

lemma bs_found:
  "low \<le> high \<Longrightarrow> c (h ! nat (low + (high - low) div 2)) n = 0 \<Longrightarrow>
   binarySearch_loop h n c low high = low + (high - low) div 2"
  by (subst binarySearch_loop.simps) simp

lemma ordered_window_shrink:
  assumes ow: "ordered_window g low high" and lo: "low \<le> low'" and hi: "high' \<le> high"
  shows "ordered_window g low' high'"
proof -
  have lt: "\<And>i j. low \<le> i \<Longrightarrow> i \<le> j \<Longrightarrow> j \<le> high \<Longrightarrow> g j < 0 \<Longrightarrow> g i < 0"
    using ow unfolding ordered_window_def by blast
  have gt: "\<And>i j. low \<le> i \<Longrightarrow> i \<le> j \<Longrightarrow> j \<le> high \<Longrightarrow> g i > 0 \<Longrightarrow> g j > 0"
    using ow unfolding ordered_window_def by blast
  have un: "\<And>i j. low \<le> i \<Longrightarrow> i < j \<Longrightarrow> j \<le> high \<Longrightarrow> g i = 0 \<Longrightarrow> g j \<noteq> 0"
    using ow unfolding ordered_window_def by blast
  show ?thesis
    unfolding ordered_window_def
  proof (intro conjI allI impI)
    fix i j assume a: "low' \<le> i \<and> i \<le> j \<and> j \<le> high' \<and> g j < 0"
    then have "low \<le> i" "i \<le> j" "j \<le> high" "g j < 0" using lo hi by auto
    then show "g i < 0" by (rule lt)
  next
    fix i j assume a: "low' \<le> i \<and> i \<le> j \<and> j \<le> high' \<and> 0 < g i"
    then have "low \<le> i" "i \<le> j" "j \<le> high" "0 < g i" using lo hi by auto
    then show "0 < g j" by (rule gt)
  next
    fix i j assume a: "low' \<le> i \<and> i < j \<and> j \<le> high' \<and> g i = 0"
    then have "low \<le> i" "i < j" "j \<le> high" "g i = 0" using lo hi by auto
    then show "g j \<noteq> 0" by (rule un)
  qed
qed

lemma window_splitI:
  "low \<le> r \<Longrightarrow> r \<le> high + 1 \<Longrightarrow> (\<And>i. low \<le> i \<Longrightarrow> i < r \<Longrightarrow> g i < 0) \<Longrightarrow>
   (\<And>i. r \<le> i \<Longrightarrow> i \<le> high \<Longrightarrow> 0 \<le> g i) \<Longrightarrow> window_split g low high r"
  by (simp add: window_split_def)

lemma window_split_bounds: "window_split g low high r \<Longrightarrow> low \<le> r \<and> r \<le> high + 1"
  by (simp add: window_split_def)

lemma window_split_below: "window_split g low high r \<Longrightarrow> low \<le> i \<Longrightarrow> i < r \<Longrightarrow> g i < 0"
  by (simp add: window_split_def)

lemma window_split_above: "window_split g low high r \<Longrightarrow> r \<le> i \<Longrightarrow> i \<le> high \<Longrightarrow> 0 \<le> g i"
  by (simp add: window_split_def)

text \<open>
  On an ordered window the search, after the flip of a negative result, returns the first
  index whose element is not too low.
\<close>

lemma binarySearch_loop_split:
  assumes "0 \<le> low" and "low \<le> high + 1"
    and "ordered_window (\<lambda>i. c (h ! nat i) n) low high"
  shows "window_split (\<lambda>i. c (h ! nat i) n) low high
           (flipNegative (binarySearch_loop h n c low high))"
  using assms
proof (induction h n c low high rule: binarySearch_loop.induct)
  case (1 h n c low high)
  let ?mid = "low + (high - low) div 2"
  let ?g = "\<lambda>i. c (h ! nat i) n"
  have lt: "\<And>i j. low \<le> i \<Longrightarrow> i \<le> j \<Longrightarrow> j \<le> high \<Longrightarrow> ?g j < 0 \<Longrightarrow> ?g i < 0"
    using "1.prems"(3) unfolding ordered_window_def by blast
  have gt: "\<And>i j. low \<le> i \<Longrightarrow> i \<le> j \<Longrightarrow> j \<le> high \<Longrightarrow> ?g i > 0 \<Longrightarrow> ?g j > 0"
    using "1.prems"(3) unfolding ordered_window_def by blast
  have un: "\<And>i j. low \<le> i \<Longrightarrow> i < j \<Longrightarrow> j \<le> high \<Longrightarrow> ?g i = 0 \<Longrightarrow> ?g j \<noteq> 0"
    using "1.prems"(3) unfolding ordered_window_def by blast
  show ?case
  proof (cases "low \<le> high")
    case False
    then have "binarySearch_loop h n c low high = - low - 1" by (rule bs_done)
    moreover have "high + 1 = low" using False "1.prems"(2) by simp
    ultimately show ?thesis using "1.prems"(1) by (simp add: window_split_def flipNegative_def)
  next
    case True
    then have mid: "low \<le> ?mid" "?mid \<le> high" by auto
    consider (low) "?g ?mid < 0" | (high) "?g ?mid > 0" | (found) "?g ?mid = 0" by linarith
    then show ?thesis
    proof cases
      case low
      let ?r = "flipNegative (binarySearch_loop h n c (?mid + 1) high)"
      have eq: "binarySearch_loop h n c low high = binarySearch_loop h n c (?mid + 1) high"
        using True low by (rule bs_low)
      have ws: "window_split ?g (?mid + 1) high ?r"
      proof (rule "1.IH"(1)[OF True low])
        show "0 \<le> ?mid + 1" using "1.prems"(1) mid by simp
        show "?mid + 1 \<le> high + 1" using mid by simp
        show "ordered_window ?g (?mid + 1) high"
        proof (rule ordered_window_shrink[OF "1.prems"(3)])
          show "low \<le> ?mid + 1" using mid by simp
          show "high \<le> high" by simp
        qed
      qed
      have r: "?mid + 1 \<le> ?r \<and> ?r \<le> high + 1"
        using ws by (rule window_split_bounds)
      have "window_split ?g low high ?r"
      proof (rule window_splitI)
        show "low \<le> ?r" using r mid by linarith
        show "?r \<le> high + 1" using r by simp
      next
        fix i assume i: "low \<le> i" "i < ?r"
        show "?g i < 0"
        proof (cases "i \<le> ?mid")
          case True
          show ?thesis by (rule lt[OF i(1) True mid(2) low])
        next
          case False
          then have "?mid + 1 \<le> i" by simp
          then show ?thesis using i(2) by (rule window_split_below[OF ws])
        qed
      next
        fix i assume i: "?r \<le> i" "i \<le> high"
        then show "0 \<le> ?g i" by (rule window_split_above[OF ws])
      qed
      then show ?thesis by (simp only: eq)
    next
      case high
      then have nlow: "\<not> ?g ?mid < 0" by simp
      let ?r = "flipNegative (binarySearch_loop h n c low (?mid - 1))"
      have eq: "binarySearch_loop h n c low high = binarySearch_loop h n c low (?mid - 1)"
        using True high by (rule bs_high)
      have ws: "window_split ?g low (?mid - 1) ?r"
      proof (rule "1.IH"(2)[OF True nlow high])
        show "0 \<le> low" using "1.prems"(1) by simp
        show "low \<le> ?mid - 1 + 1" using mid by simp
        show "ordered_window ?g low (?mid - 1)"
        proof (rule ordered_window_shrink[OF "1.prems"(3)])
          show "low \<le> low" by simp
          show "?mid - 1 \<le> high" using mid by simp
        qed
      qed
      have r: "low \<le> ?r \<and> ?r \<le> ?mid - 1 + 1"
        using ws by (rule window_split_bounds)
      have "window_split ?g low high ?r"
      proof (rule window_splitI)
        show "low \<le> ?r" using r by simp
        show "?r \<le> high + 1" using r mid by linarith
      next
        fix i assume i: "low \<le> i" "i < ?r"
        then show "?g i < 0" by (rule window_split_below[OF ws])
      next
        fix i assume i: "?r \<le> i" "i \<le> high"
        show "0 \<le> ?g i"
        proof (cases "?mid \<le> i")
          case True
          have "?g i > 0" by (rule gt[OF mid(1) True i(2) high])
          then show ?thesis by simp
        next
          case False
          then have "i \<le> ?mid - 1" by simp
          with i(1) show ?thesis by (rule window_split_above[OF ws])
        qed
      qed
      then show ?thesis by (simp only: eq)
    next
      case found
      have r: "binarySearch_loop h n c low high = ?mid"
        using True found by (rule bs_found)
      have fl: "flipNegative ?mid = ?mid"
        using "1.prems"(1) mid by (simp add: flipNegative_def)
      have below: "?g i < 0" if i: "low \<le> i" "i < ?mid" for i
      proof -
        have "?g ?mid \<noteq> 0" if "?g i = 0"
          using i(1) i(2) mid(2) that by (rule un)
        then have "?g i \<noteq> 0" using found by blast
        moreover have "\<not> ?g i > 0"
        proof
          assume "?g i > 0"
          have "?g ?mid > 0"
            by (rule gt[OF i(1) _ mid(2) \<open>?g i > 0\<close>]) (use i in simp)
          then show False using found by simp
        qed
        ultimately show ?thesis by linarith
      qed
      have above: "?g i \<ge> 0" if i: "?mid \<le> i" "i \<le> high" for i
      proof (rule ccontr)
        assume "\<not> ?g i \<ge> 0"
        then have "?g i < 0" by simp
        have "?g ?mid < 0" by (rule lt[OF mid(1) i(1) i(2) \<open>?g i < 0\<close>])
        then show False using found by simp
      qed
      have "window_split ?g low high ?mid"
      proof (rule window_splitI)
        show "low \<le> ?mid" by (rule mid(1))
        show "?mid \<le> high + 1" using mid(2) by simp
      next
        fix i assume "low \<le> i" "i < ?mid"
        then show "?g i < 0" by (rule below)
      next
        fix i assume "?mid \<le> i" "i \<le> high"
        then show "0 \<le> ?g i" by (rule above)
      qed
      then show ?thesis by (simp only: r fl)
    qed
  qed
qed

text \<open>Whatever the comparator, the flipped result is an index of the window or one past it.\<close>

lemma binarySearch_loop_range:
  assumes "0 \<le> low" and "low \<le> high + 1"
  shows "low \<le> flipNegative (binarySearch_loop h n c low high)
       \<and> flipNegative (binarySearch_loop h n c low high) \<le> high + 1"
  using assms
proof (induction h n c low high rule: binarySearch_loop.induct)
  case (1 h n c low high)
  let ?mid = "low + (high - low) div 2"
  let ?g = "\<lambda>i. c (h ! nat i) n"
  show ?case
  proof (cases "low \<le> high")
    case False
    then have "binarySearch_loop h n c low high = - low - 1" by (rule bs_done)
    then show ?thesis using "1.prems" by (simp add: flipNegative_def)
  next
    case True
    then have mid: "low \<le> ?mid" "?mid \<le> high" by auto
    consider (low) "?g ?mid < 0" | (high) "?g ?mid > 0" | (found) "?g ?mid = 0" by linarith
    then show ?thesis
    proof cases
      case low
      have eq: "binarySearch_loop h n c low high = binarySearch_loop h n c (?mid + 1) high"
        using True low by (rule bs_low)
      have "?mid + 1 \<le> flipNegative (binarySearch_loop h n c (?mid + 1) high)
          \<and> flipNegative (binarySearch_loop h n c (?mid + 1) high) \<le> high + 1"
        by (rule "1.IH"(1)[OF True low]) (use "1.prems" mid in auto)
      then show ?thesis unfolding eq using mid by linarith
    next
      case high
      then have nlow: "\<not> ?g ?mid < 0" by simp
      have eq: "binarySearch_loop h n c low high = binarySearch_loop h n c low (?mid - 1)"
        using True high by (rule bs_high)
      have "low \<le> flipNegative (binarySearch_loop h n c low (?mid - 1))
          \<and> flipNegative (binarySearch_loop h n c low (?mid - 1)) \<le> ?mid - 1 + 1"
        by (rule "1.IH"(2)[OF True nlow high]) (use "1.prems" mid in auto)
      then show ?thesis unfolding eq using mid by linarith
    next
      case found
      have r: "binarySearch_loop h n c low high = ?mid"
        using True found by (rule bs_found)
      show ?thesis unfolding r using "1.prems"(1) mid by (simp add: flipNegative_def)
    qed
  qed
qed

lemma firstSpan_range:
  "0 \<le> firstSpan off sps tc \<and> firstSpan off sps tc \<le> int (length sps)"
  using binarySearch_loop_range[of 0 "int (length sps) - 1" sps "ctx_begin tc - off" firstSpanComparator]
  by (simp add: firstSpan_def binarySearch_def)

lemma lastSpan_range:
  "0 \<le> lastSpan off sps tc \<and> lastSpan off sps tc \<le> int (length sps)"
  using binarySearch_loop_range[of 0 "int (length sps) - 1" sps "ctx_end tc - off" lastSpanComparator]
  by (simp add: lastSpan_def binarySearch_def)

lemma visitedSpans_in_range:
  "i \<in> set (visitedSpans off sps tc) \<Longrightarrow> 0 \<le> i \<and> i < int (length sps)"
  using firstSpan_range[of off sps tc] lastSpan_range[of off sps tc]
  by (auto simp: visitedSpans_def)


lemma track_ok_nth: "track_ok sps \<Longrightarrow> i < length sps \<Longrightarrow> beginMs (sps ! i) \<le> endMs (sps ! i)"
  by (simp add: track_ok_def list_all_length)

lemma track_ok_before:
  "track_ok sps \<Longrightarrow> i < j \<Longrightarrow> j < length sps \<Longrightarrow> endMs (sps ! i) < beginMs (sps ! j)"
  by (simp add: track_ok_def sorted_wrt_iff_nth_less)

lemma firstSpanComparator_ordered:
  assumes ok: "track_ok sps"
  shows "ordered_window (\<lambda>i. firstSpanComparator (sps ! nat i) n) 0 (int (length sps) - 1)"
  unfolding ordered_window_def
proof (intro conjI allI impI)
  fix i j :: int
  assume a: "0 \<le> i \<and> i \<le> j \<and> j \<le> int (length sps) - 1 \<and> firstSpanComparator (sps ! nat j) n < 0"
  then have e: "endMs (sps ! nat j) < n"
    by (simp add: firstSpanComparator_def split: if_splits)
  have "endMs (sps ! nat i) \<le> endMs (sps ! nat j)"
  proof (cases "i = j")
    case True
    then show ?thesis by simp
  next
    case False
    with a have "nat i < nat j" "nat j < length sps" by auto
    then have "endMs (sps ! nat i) < beginMs (sps ! nat j)"
      and "beginMs (sps ! nat j) \<le> endMs (sps ! nat j)"
      using ok by (simp_all add: track_ok_before track_ok_nth)
    then show ?thesis by simp
  qed
  with e show "firstSpanComparator (sps ! nat i) n < 0"
    by (simp add: firstSpanComparator_def)
next
  fix i j :: int
  assume a: "0 \<le> i \<and> i \<le> j \<and> j \<le> int (length sps) - 1 \<and> 0 < firstSpanComparator (sps ! nat i) n"
  then have b: "\<not> endMs (sps ! nat i) < n" "n < beginMs (sps ! nat i)"
    by (simp_all add: firstSpanComparator_def split: if_splits)
  have "beginMs (sps ! nat i) \<le> beginMs (sps ! nat j) \<and> endMs (sps ! nat i) \<le> endMs (sps ! nat j)"
  proof (cases "i = j")
    case True
    then show ?thesis by simp
  next
    case False
    with a have "nat i < nat j" "nat j < length sps" "nat i < length sps" by auto
    then have "endMs (sps ! nat i) < beginMs (sps ! nat j)"
      and "beginMs (sps ! nat j) \<le> endMs (sps ! nat j)"
      and "beginMs (sps ! nat i) \<le> endMs (sps ! nat i)"
      using ok by (simp_all add: track_ok_before track_ok_nth)
    then show ?thesis by simp
  qed
  with b show "0 < firstSpanComparator (sps ! nat j) n"
    by (simp add: firstSpanComparator_def)
next
  fix i j :: int
  assume a: "0 \<le> i \<and> i < j \<and> j \<le> int (length sps) - 1 \<and> firstSpanComparator (sps ! nat i) n = 0"
  then have b: "\<not> endMs (sps ! nat i) < n"
    by (simp add: firstSpanComparator_def split: if_splits)
  from a have "nat i < nat j" "nat j < length sps" by auto
  then have "endMs (sps ! nat i) < beginMs (sps ! nat j)"
    and "beginMs (sps ! nat j) \<le> endMs (sps ! nat j)"
    using ok by (simp_all add: track_ok_before track_ok_nth)
  with b show "firstSpanComparator (sps ! nat j) n \<noteq> 0"
    by (simp add: firstSpanComparator_def)
qed

lemma lastSpanComparator_ordered:
  assumes ok: "track_ok sps"
  shows "ordered_window (\<lambda>i. lastSpanComparator (sps ! nat i) n) 0 (int (length sps) - 1)"
  unfolding ordered_window_def
proof (intro conjI allI impI)
  fix i j :: int
  assume a: "0 \<le> i \<and> i \<le> j \<and> j \<le> int (length sps) - 1 \<and> lastSpanComparator (sps ! nat j) n < 0"
  then have e: "beginMs (sps ! nat j) < n"
    by (simp add: lastSpanComparator_def split: if_splits)
  have "beginMs (sps ! nat i) \<le> beginMs (sps ! nat j)"
  proof (cases "i = j")
    case True
    then show ?thesis by simp
  next
    case False
    with a have "nat i < nat j" "nat j < length sps" "nat i < length sps" by auto
    then have "endMs (sps ! nat i) < beginMs (sps ! nat j)"
      and "beginMs (sps ! nat i) \<le> endMs (sps ! nat i)"
      using ok by (simp_all add: track_ok_before track_ok_nth)
    then show ?thesis by simp
  qed
  with e show "lastSpanComparator (sps ! nat i) n < 0"
    by (simp add: lastSpanComparator_def)
next
  fix i j :: int
  assume a: "0 \<le> i \<and> i \<le> j \<and> j \<le> int (length sps) - 1 \<and> 0 < lastSpanComparator (sps ! nat i) n"
  then have b: "\<not> beginMs (sps ! nat i) < n" "n < endMs (sps ! nat i)"
    by (simp_all add: lastSpanComparator_def split: if_splits)
  have "beginMs (sps ! nat i) \<le> beginMs (sps ! nat j) \<and> endMs (sps ! nat i) \<le> endMs (sps ! nat j)"
  proof (cases "i = j")
    case True
    then show ?thesis by simp
  next
    case False
    with a have "nat i < nat j" "nat j < length sps" "nat i < length sps" by auto
    then have "endMs (sps ! nat i) < beginMs (sps ! nat j)"
      and "beginMs (sps ! nat j) \<le> endMs (sps ! nat j)"
      and "beginMs (sps ! nat i) \<le> endMs (sps ! nat i)"
      using ok by (simp_all add: track_ok_before track_ok_nth)
    then show ?thesis by simp
  qed
  with b show "0 < lastSpanComparator (sps ! nat j) n"
    by (simp add: lastSpanComparator_def)
next
  fix i j :: int
  assume a: "0 \<le> i \<and> i < j \<and> j \<le> int (length sps) - 1 \<and> lastSpanComparator (sps ! nat i) n = 0"
  then have b: "\<not> beginMs (sps ! nat i) < n"
    by (simp add: lastSpanComparator_def split: if_splits)
  from a have "nat i < nat j" "nat j < length sps" "nat i < length sps" by auto
  then have "endMs (sps ! nat i) < beginMs (sps ! nat j)"
    and "beginMs (sps ! nat j) \<le> endMs (sps ! nat j)"
    and "beginMs (sps ! nat i) \<le> endMs (sps ! nat i)"
    using ok by (simp_all add: track_ok_before track_ok_nth)
  with b show "lastSpanComparator (sps ! nat j) n \<noteq> 0"
    by (simp add: lastSpanComparator_def)
qed

lemma firstSpan_split:
  assumes ok: "track_ok sps"
  shows "window_split (\<lambda>i. firstSpanComparator (sps ! nat i) (ctx_begin tc - off)) 0
           (int (length sps) - 1) (firstSpan off sps tc)"
  unfolding firstSpan_def binarySearch_def
  by (rule binarySearch_loop_split) (simp_all add: firstSpanComparator_ordered[OF ok])

lemma lastSpan_split:
  assumes ok: "track_ok sps"
  shows "window_split (\<lambda>i. lastSpanComparator (sps ! nat i) (ctx_end tc - off)) 0
           (int (length sps) - 1) (lastSpan off sps tc)"
  unfolding lastSpan_def binarySearch_def
  by (rule binarySearch_loop_split) (simp_all add: lastSpanComparator_ordered[OF ok])

lemma upto_as_filter:
  assumes F: "0 \<le> F" and L: "L \<le> int n"
    and P: "\<And>i. i < n \<Longrightarrow> P i \<longleftrightarrow> F \<le> int i \<and> int i < L"
  shows "[F .. L - 1] = map int (filter P [0..<n])"
proof (rule sorted_distinct_set_unique)
  show "sorted [F .. L - 1]" by simp
  show "distinct [F .. L - 1]" by simp
  show "sorted (map int (filter P [0..<n]))"
    by (simp add: sorted_map sorted_wrt_filter sorted_wrt_upt)
  show "distinct (map int (filter P [0..<n]))"
    by (simp add: distinct_map inj_on_def)
  show "set [F .. L - 1] = set (map int (filter P [0..<n]))"
  proof (rule set_eqI)
    fix x
    show "x \<in> set [F .. L - 1] \<longleftrightarrow> x \<in> set (map int (filter P [0..<n]))"
    proof
      assume "x \<in> set [F .. L - 1]"
      then have x: "F \<le> x" "x < L" by auto
      then have "nat x < n" "int (nat x) = x" using F L by auto
      then show "x \<in> set (map int (filter P [0..<n]))" using P[of "nat x"] x by force
    next
      assume "x \<in> set (map int (filter P [0..<n]))"
      then obtain i where "i < n" "P i" "x = int i" by auto
      then show "x \<in> set [F .. L - 1]" using P[of i] by auto
    qed
  qed
qed

lemma visitedSpans_inView:
  assumes ok: "track_ok sps"
  shows "visitedSpans off sps tc = map int (filter (inView off sps tc) [0 ..< length sps])"
  unfolding visitedSpans_def
proof (rule upto_as_filter)
  show "0 \<le> firstSpan off sps tc" using firstSpan_range[of off sps tc] by simp
  show "lastSpan off sps tc \<le> int (length sps)" using lastSpan_range[of off sps tc] by simp
next
  fix i assume i: "i < length sps"
  let ?F = "firstSpan off sps tc" and ?L = "lastSpan off sps tc"
  have f1: "int i < ?F \<Longrightarrow> firstSpanComparator (sps ! i) (ctx_begin tc - off) < 0"
    using window_split_below[OF firstSpan_split[OF ok, of tc off], of "int i"] by simp
  have f2: "?F \<le> int i \<Longrightarrow> 0 \<le> firstSpanComparator (sps ! i) (ctx_begin tc - off)"
    using window_split_above[OF firstSpan_split[OF ok, of tc off], of "int i"] i by simp
  have l1: "int i < ?L \<Longrightarrow> lastSpanComparator (sps ! i) (ctx_end tc - off) < 0"
    using window_split_below[OF lastSpan_split[OF ok, of tc off], of "int i"] by simp
  have l2: "?L \<le> int i \<Longrightarrow> 0 \<le> lastSpanComparator (sps ! i) (ctx_end tc - off)"
    using window_split_above[OF lastSpan_split[OF ok, of tc off], of "int i"] i by simp
  have a: "ctx_begin tc \<le> endMs (sps ! i) + off \<longleftrightarrow> ?F \<le> int i"
  proof (cases "?F \<le> int i")
    case True
    with f2 show ?thesis by (simp add: firstSpanComparator_def split: if_splits)
  next
    case False
    with f1 show ?thesis by (simp add: firstSpanComparator_def split: if_splits)
  qed
  have b: "beginMs (sps ! i) + off < ctx_end tc \<longleftrightarrow> int i < ?L"
  proof (cases "int i < ?L")
    case True
    with l1 show ?thesis by (simp add: lastSpanComparator_def split: if_splits)
  next
    case False
    with l2 show ?thesis by (simp add: lastSpanComparator_def split: if_splits)
  qed
  show "inView off sps tc i \<longleftrightarrow> ?F \<le> int i \<and> int i < ?L"
    unfolding inView_def using a b by simp
qed


text \<open>
  C1 (as amended). On a track whose spans are well formed and strictly ordered, the loop of
  drawSpanTrack runs through exactly the indices of the spans that, moved by the process
  offset, end at or after the beginning of the view range and begin strictly before its
  end, in ascending order and once each. In particular the five spans beginning at
  0, 10, 20, 30, 40 and ending at 5, 15, 25, 35, 45 with the view range from 12 to 32 and no
  offset give the indices 1, 2, 3.
\<close>

theorem drawSpanTrack_visits_spans_in_view:
  "(track_ok sps \<longrightarrow>
      visitedSpans off sps tc = map int (filter (inView off sps tc) [0 ..< length sps])) \<and>
   (map beginMs sps5 = [0, 10, 20, 30, 40] \<and> map endMs sps5 = [5, 15, 25, 35, 45] \<and>
    ctx_begin tc5 = 12 \<and> ctx_end tc5 = 32 \<longrightarrow> visitedSpans 0 sps5 tc5 = [1, 2, 3])"
proof (intro conjI impI)
  assume "track_ok sps"
  then show "visitedSpans off sps tc = map int (filter (inView off sps tc) [0 ..< length sps])"
    by (rule visitedSpans_inView)
next
  assume a: "map beginMs sps5 = [0, 10, 20, 30, 40] \<and> map endMs sps5 = [5, 15, 25, 35, 45] \<and>
    ctx_begin tc5 = 12 \<and> ctx_end tc5 = 32"
  then obtain s0 s1 s2 s3 s4 where sps5: "sps5 = [s0, s1, s2, s3, s4]"
    by (auto simp: map_eq_Cons_conv)
  have ok: "track_ok sps5" using a by (simp add: sps5 track_ok_def)
  have "visitedSpans 0 sps5 tc5 = map int (filter (inView 0 sps5 tc5) [0 ..< length sps5])"
    using ok by (rule visitedSpans_inView)
  also have "[0 ..< length sps5] = [0, 1, 2, 3, 4]" by (simp add: sps5 upt_rec)
  also have "map int (filter (inView 0 sps5 tc5) [0, 1, 2, 3, 4]) = [1, 2, 3]"
    using a by (simp add: sps5 inView_def)
  finally show "visitedSpans 0 sps5 tc5 = [1, 2, 3]" .
qed

theorem drawSpanTrack_visits_spans_in_view_witness:
  "track_ok scenarioSpans \<and>
   visitedSpans 0 scenarioSpans (mkView 12 32)
     = map int (filter (inView 0 scenarioSpans (mkView 12 32)) [0 ..< length scenarioSpans]) \<and>
   map beginMs scenarioSpans = [0, 10, 20, 30, 40] \<and>
   map endMs scenarioSpans = [5, 15, 25, 35, 45] \<and>
   visitedSpans 0 scenarioSpans (mkView 12 32) = [1, 2, 3]"
proof -
  note t = drawSpanTrack_visits_spans_in_view
    [of scenarioSpans 0 "mkView 12 32" scenarioSpans "mkView 12 32"]
  have ok: "track_ok scenarioSpans"
    by (simp add: scenarioSpans_def mkSpan_def track_ok_def)
  have b: "map beginMs scenarioSpans = [0, 10, 20, 30, 40]"
    and e: "map endMs scenarioSpans = [5, 15, 25, 35, 45]"
    by (simp_all add: scenarioSpans_def mkSpan_def)
  have v: "ctx_begin (mkView 12 32) = 12 \<and> ctx_end (mkView 12 32) = 32"
    by (simp add: mkView_def)
  from t ok have 1: "visitedSpans 0 scenarioSpans (mkView 12 32)
     = map int (filter (inView 0 scenarioSpans (mkView 12 32)) [0 ..< length scenarioSpans])"
    by blast
  from t b e v have 2: "visitedSpans 0 scenarioSpans (mkView 12 32) = [1, 2, 3]"
    by blast
  from ok 1 b e 2 show ?thesis by blast
qed

text \<open>
  With the closed view range the statement fails, also on a strictly ordered track: the span
  from 10 to 15 meets the closed view range from 2 to 10 in the point 10, and the loop does
  not reach it.
\<close>

theorem drawSpanTrack_closed_range_counterexample:
  "sorted (map beginMs [mkSpan 0 5 0, mkSpan 10 15 0]) \<and>
   intersectsView 0 [mkSpan 0 5 0, mkSpan 10 15 0] (mkView 2 10) 1 \<and>
   visitedSpans 0 [mkSpan 0 5 0, mkSpan 10 15 0] (mkView 2 10) = [0]"
  by (simp add: intersectsView_def visitedSpans_def firstSpan_def lastSpan_def binarySearch_def
      bs_done bs_low bs_high bs_found flipNegative_def firstSpanComparator_def
      lastSpanComparator_def mkSpan_def mkView_def)

text \<open>
  Sorted by beginMs alone is not enough either: when a long span overlaps the later ones,
  the search passes it by. The span from 0 to 100 covers the view range from 50 to 60 and
  the loop visits nothing.
\<close>

lemma drawSpanTrack_overlapping_spans_missed:
  "sorted (map beginMs [mkSpan 0 100 0, mkSpan 10 15 0, mkSpan 20 25 0]) \<and>
   inView 0 [mkSpan 0 100 0, mkSpan 10 15 0, mkSpan 20 25 0] (mkView 50 60) 0 \<and>
   visitedSpans 0 [mkSpan 0 100 0, mkSpan 10 15 0, mkSpan 20 25 0] (mkView 50 60) = []"
  by (simp add: inView_def visitedSpans_def firstSpan_def lastSpan_def binarySearch_def
      bs_done bs_low bs_high bs_found flipNegative_def firstSpanComparator_def
      lastSpanComparator_def mkSpan_def mkView_def)


text \<open>
  Nor are spans that touch: the span from 0 to 10 ends at the beginning of the view range
  from 10 to 25, and the search stops at the span from 10 to 20, which holds the needle too.
\<close>

lemma drawSpanTrack_touching_spans_missed:
  "inView 0 [mkSpan 0 10 0, mkSpan 10 20 0, mkSpan 20 30 0] (mkView 10 25) 0 \<and>
   visitedSpans 0 [mkSpan 0 10 0, mkSpan 10 20 0, mkSpan 20 30 0] (mkView 10 25) = [1, 2]"
  by (simp add: inView_def visitedSpans_def firstSpan_def lastSpan_def binarySearch_def
      bs_done bs_low bs_high bs_found flipNegative_def firstSpanComparator_def
      lastSpanComparator_def mkSpan_def mkView_def upto.simps)


section \<open>The loop body of drawSpanTrack\<close>

text \<open>
  C9. A span that the loop visits and whose pixel width is below 0.1 leaves the canvas as
  it is (no rectangle, no marker, no caption, no attribute set), and the loop goes on with
  the indices that remain.
\<close>

theorem drawSpanTrack_skips_subpixel_span:
  assumes "i \<in> set (visitedSpans (processOffsetMs d) sps tc)"
    and "callWidth d tc (sps ! nat i) < 0.1"
  shows "drawSpan d trackIndex tc characterWidth characterHeight (sps ! nat i) c = Inr c \<and>
         drawSpans d trackIndex tc characterWidth characterHeight sps (i # rest) c
           = drawSpans d trackIndex tc characterWidth characterHeight sps rest c"
proof -
  have r: "0 \<le> i \<and> i < int (length sps)"
    using assms(1) by (rule visitedSpans_in_range)
  have b: "drawSpan d trackIndex tc characterWidth characterHeight (sps ! nat i) c = Inr c"
    using assms(2) by (simp add: drawSpan_def)
  show ?thesis using r b by simp
qed

text \<open>
  C10. A span with scope hash 0 is drawn as one rectangle in the colour of the track index,
  with the alpha of the span, and nothing else (nothing at all when it is narrower than
  0.1): whatever the scope table holds and whatever the search term is, no exception is
  raised, no text is written and the highlight colour is not used.
\<close>

theorem drawSpan_scopeHash_zero:
  assumes "scopeHash sp = 0"
  shows "drawSpan (d\<lparr>scopes := tbl\<rparr>) trackIndex (tc\<lparr>search := q\<rparr>) characterWidth characterHeight sp c =
     (if callWidth d tc sp < 0.1 then Inr c
      else Inr (c\<lparr>fillStyle := getIndexColor trackIndex, globalAlpha := 1,
             ops := ops c @ [FillRect (getIndexColor trackIndex) (alpha sp / 255)
                               (beginPixels d tc sp) (real trackIndex * spanPixelHeight d)
                               (callWidth d tc sp) (spanPixelHeight d)]\<rparr>))"
  using assms
  by (simp add: drawSpan_def fillRect_def callWidth_def beginPixels_def endPixels_def Let_def)


theorem drawSpanTrack_skips_subpixel_span_witness:
  "(1 :: int) \<in> set (visitedSpans (processOffsetMs testDrawer)
       [mkSpan 0 10 0, mkSpan 20 20.05 0, mkSpan 30 40 0] (mkView 0 100)) \<and>
   callWidth testDrawer (mkView 0 100) ([mkSpan 0 10 0, mkSpan 20 20.05 0, mkSpan 30 40 0] ! nat 1) < 0.1 \<and>
   drawSpan testDrawer 0 (mkView 0 100) 10 10
     ([mkSpan 0 10 0, mkSpan 20 20.05 0, mkSpan 30 40 0] ! nat 1) blankCanvas = Inr blankCanvas \<and>
   drawSpans testDrawer 0 (mkView 0 100) 10 10 [mkSpan 0 10 0, mkSpan 20 20.05 0, mkSpan 30 40 0]
     [1, 2] blankCanvas
     = drawSpans testDrawer 0 (mkView 0 100) 10 10 [mkSpan 0 10 0, mkSpan 20 20.05 0, mkSpan 30 40 0]
         [2] blankCanvas"
proof -
  let ?sps = "[mkSpan 0 10 0, mkSpan 20 20.05 0, mkSpan 30 40 0]"
  have v: "visitedSpans (processOffsetMs testDrawer) ?sps (mkView 0 100) = [0, 1, 2]"
    by (simp add: visitedSpans_def firstSpan_def lastSpan_def binarySearch_def
        bs_done bs_low bs_high bs_found flipNegative_def firstSpanComparator_def
        lastSpanComparator_def mkSpan_def mkView_def testDrawer_def upto.simps)
  have m: "(1 :: int) \<in> set (visitedSpans (processOffsetMs testDrawer) ?sps (mkView 0 100))"
    unfolding v by simp
  have w: "callWidth testDrawer (mkView 0 100) (?sps ! nat 1) < 0.1"
    by (simp add: callWidth_def beginPixels_def endPixels_def mkSpan_def mkView_def testDrawer_def)
  from drawSpanTrack_skips_subpixel_span[OF m w, of 0 10 10 blankCanvas "[2]"] m w
  show ?thesis by simp
qed

theorem drawSpan_scopeHash_zero_witness:
  "scopeHash (mkSpan 30 40 0) = 0 \<and>
   drawSpan (testDrawer\<lparr>scopes := Map.empty\<rparr>) 1 ((mkView 0 100)\<lparr>search := ''leaf''\<rparr>) 10 10
     (mkSpan 30 40 0) blankCanvas
   = Inr (blankCanvas\<lparr>fillStyle := ''#fede99'', globalAlpha := 1,
            ops := [FillRect ''#fede99'' 1 30 20 10 20]\<rparr>)"
  using drawSpan_scopeHash_zero[where sp = "mkSpan 30 40 0" and d = testDrawer and tbl = Map.empty
      and trackIndex = 1 and tc = "mkView 0 100" and q = "''leaf''" and characterWidth = 10
      and characterHeight = 10 and c = blankCanvas]
  by (simp add: mkSpan_def mkView_def testDrawer_def blankCanvas_def callWidth_def
      beginPixels_def endPixels_def getIndexColor_def)

section \<open>A scope hash without an entry\<close>

lemma drawSpan_missingScope:
  "missingScope d tc sp \<Longrightarrow>
   drawSpan d trackIndex tc characterWidth characterHeight sp c
     = Inl (TypeError, c\<lparr>globalAlpha := alpha sp / 255\<rparr>)"
  by (simp add: drawSpan_def missingScope_def Let_def)

lemma drawSpan_isl:
  "isl (drawSpan d trackIndex tc characterWidth characterHeight sp c) \<longleftrightarrow> missingScope d tc sp"
  by (simp add: drawSpan_def missingScope_def Let_def split: option.splits)

lemma drawSpans_isl:
  assumes "\<forall>i \<in> set idxs. 0 \<le> i \<and> i < int (length sps)"
  shows "isl (drawSpans d trackIndex tc characterWidth characterHeight sps idxs c)
     \<longleftrightarrow> (\<exists>i \<in> set idxs. missingScope d tc (sps ! nat i))"
  using assms
proof (induction idxs arbitrary: c)
  case Nil
  then show ?case by simp
next
  case (Cons i idxs)
  then have r: "0 \<le> i \<and> i < int (length sps)"
    and rest: "\<forall>i \<in> set idxs. 0 \<le> i \<and> i < int (length sps)" by simp_all
  show ?case
  proof (cases "drawSpan d trackIndex tc characterWidth characterHeight (sps ! nat i) c")
    case (Inl e)
    then have "missingScope d tc (sps ! nat i)"
      using drawSpan_isl[of d trackIndex tc characterWidth characterHeight "sps ! nat i" c] by simp
    then show ?thesis using Inl r by simp
  next
    case (Inr c')
    then have "\<not> missingScope d tc (sps ! nat i)"
      using drawSpan_isl[of d trackIndex tc characterWidth characterHeight "sps ! nat i" c] by simp
    then show ?thesis using Inr r Cons.IH[OF rest, of c'] by simp
  qed
qed

text \<open>
  C3 (as amended). A span that the loop draws and whose scope hash is not zero and has no
  entry in the scope table raises a TypeError: nothing is drawn for it (only globalAlpha
  has been set), the spans after it are not drawn, and the exception leaves drawSpanTrack.
  drawSpanTrack returns normally exactly when no visited span is of that kind.
\<close>

theorem drawSpanTrack_missing_scope_throws:
  "(missingScope d tc sp \<longrightarrow>
      drawSpan d trackIndex tc characterWidth characterHeight sp c
        = Inl (TypeError, c\<lparr>globalAlpha := alpha sp / 255\<rparr>)) \<and>
   (0 \<le> i \<and> i < int (length sps) \<and> missingScope d tc (sps ! nat i) \<longrightarrow>
      drawSpans d trackIndex tc characterWidth characterHeight sps (i # rest) c
        = Inl (TypeError, c\<lparr>globalAlpha := alpha (sps ! nat i) / 255\<rparr>)) \<and>
   (isl (drawSpanTrack d trackIndex track tc (Some c)) \<longleftrightarrow>
      (\<exists>k \<in> set (visitedSpans (processOffsetMs d) (spans track) tc).
         missingScope d tc (spans track ! nat k)))"
proof (intro conjI impI)
  assume "missingScope d tc sp"
  then show "drawSpan d trackIndex tc characterWidth characterHeight sp c
        = Inl (TypeError, c\<lparr>globalAlpha := alpha sp / 255\<rparr>)"
    by (rule drawSpan_missingScope)
next
  assume a: "0 \<le> i \<and> i < int (length sps) \<and> missingScope d tc (sps ! nat i)"
  then have "drawSpan d trackIndex tc characterWidth characterHeight (sps ! nat i) c
        = Inl (TypeError, c\<lparr>globalAlpha := alpha (sps ! nat i) / 255\<rparr>)"
    by (simp add: drawSpan_missingScope)
  with a show "drawSpans d trackIndex tc characterWidth characterHeight sps (i # rest) c
        = Inl (TypeError, c\<lparr>globalAlpha := alpha (sps ! nat i) / 255\<rparr>)"
    by simp
next
  let ?vis = "visitedSpans (processOffsetMs d) (spans track) tc"
  let ?loop = "drawSpans d trackIndex tc (measureText d (font c) ''<>_w'' / 4)
      (measureAscent d (font c) ''<>_w'') (spans track) ?vis c"
  have "\<forall>k \<in> set ?vis. 0 \<le> k \<and> k < int (length (spans track))"
    using visitedSpans_in_range by blast
  then have "isl ?loop \<longleftrightarrow> (\<exists>k \<in> set ?vis. missingScope d tc (spans track ! nat k))"
    by (rule drawSpans_isl)
  moreover have "isl (drawSpanTrack d trackIndex track tc (Some c)) \<longleftrightarrow> isl ?loop"
    by (simp add: drawSpanTrack_def split: sum.splits)
  ultimately show "isl (drawSpanTrack d trackIndex track tc (Some c)) \<longleftrightarrow>
      (\<exists>k \<in> set ?vis. missingScope d tc (spans track ! nat k))"
    by simp
qed

lemma visitedSpans_two_spans:
  "visitedSpans 0 [mkSpan 0 10 7, mkSpan 20 30 0] (mkView 0 100) = [0, 1]"
  by (simp add: visitedSpans_def firstSpan_def lastSpan_def binarySearch_def
      bs_done bs_low bs_high bs_found flipNegative_def firstSpanComparator_def
      lastSpanComparator_def mkSpan_def mkView_def upto.simps)

lemma missingScope_example: "missingScope testDrawer (mkView 0 100) (mkSpan 0 10 7)"
  by (simp add: missingScope_def callWidth_def beginPixels_def endPixels_def mkSpan_def
      mkView_def testDrawer_def)

theorem drawSpanTrack_missing_scope_throws_witness:
  "missingScope testDrawer (mkView 0 100) (mkSpan 0 10 7) \<and>
   drawSpan testDrawer 0 (mkView 0 100) 10 10 (mkSpan 0 10 7) blankCanvas
     = Inl (TypeError, blankCanvas\<lparr>globalAlpha := alpha (mkSpan 0 10 7) / 255\<rparr>) \<and>
   drawSpans testDrawer 0 (mkView 0 100) 10 10 [mkSpan 0 10 7, mkSpan 20 30 0] [0, 1] blankCanvas
     = Inl (TypeError, blankCanvas\<lparr>globalAlpha := alpha (mkSpan 0 10 7) / 255\<rparr>) \<and>
   isl (drawSpanTrack testDrawer 0 \<lparr>spans = [mkSpan 0 10 7, mkSpan 20 30 0]\<rparr> (mkView 0 100)
          (Some blankCanvas))"
proof -
  note t = drawSpanTrack_missing_scope_throws[where d = testDrawer and tc = "mkView 0 100"
      and sp = "mkSpan 0 10 7" and trackIndex = 0 and characterWidth = 10 and characterHeight = 10
      and c = blankCanvas and i = 0 and sps = "[mkSpan 0 10 7, mkSpan 20 30 0]" and rest = "[1]"
      and track = "\<lparr>spans = [mkSpan 0 10 7, mkSpan 20 30 0]\<rparr>"]
  have v: "visitedSpans (processOffsetMs testDrawer)
      (spans \<lparr>spans = [mkSpan 0 10 7, mkSpan 20 30 0]\<rparr>) (mkView 0 100) = [0, 1]"
    using visitedSpans_two_spans by (simp add: testDrawer_def)
  from t missingScope_example
  have 1: "drawSpan testDrawer 0 (mkView 0 100) 10 10 (mkSpan 0 10 7) blankCanvas
     = Inl (TypeError, blankCanvas\<lparr>globalAlpha := alpha (mkSpan 0 10 7) / 255\<rparr>)"
    by blast
  from t missingScope_example
  have 2: "drawSpans testDrawer 0 (mkView 0 100) 10 10 [mkSpan 0 10 7, mkSpan 20 30 0] [0, 1] blankCanvas
     = Inl (TypeError, blankCanvas\<lparr>globalAlpha := alpha (mkSpan 0 10 7) / 255\<rparr>)"
    by simp
  from t missingScope_example
  have 3: "isl (drawSpanTrack testDrawer 0 \<lparr>spans = [mkSpan 0 10 7, mkSpan 20 30 0]\<rparr> (mkView 0 100)
          (Some blankCanvas))"
    unfolding v by simp
  from missingScope_example 1 2 3 show ?thesis by blast
qed

text \<open>
  No unlabeled rectangle is drawn in place of the caption: the first span has the scope hash
  7, the scope table is empty, and drawSpanTrack ends with the exception, having drawn no
  rectangle, neither for this span nor for the span with scope hash 0 that follows it.
\<close>

theorem drawSpanTrack_missing_scope_counterexample:
  "scopes testDrawer 7 = None \<and>
   drawSpanTrack testDrawer 0 \<lparr>spans = [mkSpan 0 10 7, mkSpan 20 30 0]\<rparr> (mkView 0 100)
     (Some blankCanvas) = Inl (TypeError, blankCanvas)"
proof -
  have v: "visitedSpans (processOffsetMs testDrawer)
      (spans \<lparr>spans = [mkSpan 0 10 7, mkSpan 20 30 0]\<rparr>) (mkView 0 100) = [0, 1]"
    using visitedSpans_two_spans by (simp add: testDrawer_def)
  have d: "drawSpan testDrawer 0 (mkView 0 100) c1 c2 (mkSpan 0 10 7) blankCanvas
     = Inl (TypeError, blankCanvas)" for c1 c2
    using drawSpan_missingScope[OF missingScope_example, of 0 c1 c2 blankCanvas]
    by (simp add: mkSpan_def blankCanvas_def)
  show ?thesis
    unfolding drawSpanTrack_def v by (simp add: d) (simp add: testDrawer_def)
qed


section \<open>writeText on a qualified name\<close>

lemma drawnTexts_append: "drawnTexts (xs @ ys) = drawnTexts xs @ drawnTexts ys"
  by (induction xs rule: drawnTexts.induct) simp_all

lemma writeTextLoop_ops:
  "\<exists>more. ops (writeTextLoop d fs fnt cw items width x y c) = ops c @ more"
proof (induction items arbitrary: width x c)
  case Nil
  then show ?case by simp
next
  case (Cons item items)
  let ?c1 = "c\<lparr>fillStyle := orDefault (item_color item) fs, font := orDefault (item_font item) fnt\<rparr>"
  let ?b = "budgetOf width cw"
  consider (stop) "budgetFalsy ?b"
    | (skip) "\<not> budgetFalsy ?b" "longerThan (value item) ?b \<and> skippable item"
    | (draw) "\<not> budgetFalsy ?b" "\<not> (longerThan (value item) ?b \<and> skippable item)"
    by blast
  then show ?case
  proof cases
    case stop
    then show ?thesis by simp
  next
    case skip
    then show ?thesis using Cons.IH[of width x ?c1] by simp
  next
    case draw
    let ?c2 = "fillText (sliceTo (value item) ?b) x y ?c1"
    let ?size = "measureText d (font ?c2) (sliceTo (value item) ?b)"
    have eq: "writeTextLoop d fs fnt cw (item # items) width x y c
        = writeTextLoop d fs fnt cw items (width - ?size) (x + ?size) y ?c2"
      using draw by (auto simp add: Let_def)
    obtain more where "ops (writeTextLoop d fs fnt cw items (width - ?size) (x + ?size) y ?c2)
        = ops ?c2 @ more"
      using Cons.IH[of "width - ?size" "x + ?size" ?c2] by blast
    then have "ops (writeTextLoop d fs fnt cw (item # items) width x y c)
        = ops c @ (FillText (fillStyle ?c1) (font ?c1) (globalAlpha ?c1) (sliceTo (value item) ?b) x y # more)"
      unfolding eq by (simp add: fillText_def)
    then show ?thesis by blast
  qed
qed

lemma getCaptions_ns_inner_leaf:
  "getCaptions d ''ns::inner::leaf'' b e =
     [\<lparr>value = ''ns'', item_font = Some ''15px arial'', item_color = Some ''#4d4d4d'', skippable = False\<rparr>,
      \<lparr>value = ''::inner'', item_font = Some ''15px arial'', item_color = Some ''#4d4d4d'', skippable = False\<rparr>,
      \<lparr>value = ''::leaf'', item_font = Some ''15px arial'', item_color = Some ''#000000'', skippable = False\<rparr>,
      \<lparr>value = ''  ('' @ formatExecutionTime d (e - b) @ '')'', item_font = Some ''12px arial'',
        item_color = Some ''#4d4d4d'', skippable = True\<rparr>]"
  by (simp add: getCaptions_def)

lemma ops_restore: "ops (restore c) = ops c"
  by (simp add: restore_def split: list.splits prod.splits)

text \<open>
  C2 (as amended). The caption sequence of \<open>ns::inner::leaf\<close> is written with a budget of
  at least two characters. When less than one character width is left after \<open>ns\<close>, writeText
  draws \<open>ns\<close> and stops. When \<open>k \<ge> 1\<close> character widths are left, the segment \<open>::inner\<close>,
  which is not skippable, is drawn cut to its first \<open>k\<close> characters.
\<close>

theorem writeText_ns_inner_leaf:
  assumes cw: "characterWidth \<noteq> 0"
    and first: "2 \<le> \<lfloor>width / characterWidth\<rfloor>"
  shows
   "(\<lfloor>(width - measureText d ''15px arial'' ''ns'') / characterWidth\<rfloor> = 0 \<longrightarrow>
       drawnTexts (ops (writeText d width characterWidth (getCaptions d ''ns::inner::leaf'' b e) x y c))
         = drawnTexts (ops c) @ [''ns'']) \<and>
    (1 \<le> \<lfloor>(width - measureText d ''15px arial'' ''ns'') / characterWidth\<rfloor> \<longrightarrow>
       (\<exists>more.
          drawnTexts (ops (writeText d width characterWidth (getCaptions d ''ns::inner::leaf'' b e) x y c))
            = drawnTexts (ops c)
              @ [''ns'', take (nat \<lfloor>(width - measureText d ''15px arial'' ''ns'') / characterWidth\<rfloor>) ''::inner'']
              @ more))"
proof -
  let ?m = "measureText d ''15px arial'' ''ns''"
  let ?k = "\<lfloor>(width - ?m) / characterWidth\<rfloor>"
  let ?fs = "fillStyle (save c)" and ?fnt = "font (save c)"
  let ?i2 = "\<lparr>value = ''::inner'', item_font = Some ''15px arial'', item_color = Some ''#4d4d4d'', skippable = False\<rparr>"
  let ?i3 = "\<lparr>value = ''::leaf'', item_font = Some ''15px arial'', item_color = Some ''#000000'', skippable = False\<rparr>"
  let ?i4 = "\<lparr>value = ''  ('' @ formatExecutionTime d (e - b) @ '')'', item_font = Some ''12px arial'',
        item_color = Some ''#4d4d4d'', skippable = True\<rparr>"
  let ?c1 = "(save c)\<lparr>fillStyle := ''#4d4d4d'', font := ''15px arial''\<rparr>"
  let ?c2 = "fillText ''ns'' x y ?c1"
  have b1: "budgetOf width characterWidth = BFinite \<lfloor>width / characterWidth\<rfloor>"
    using cw by (simp add: budgetOf_def)
  have len: "length ''ns'' = 2" by simp
  have "length ''ns'' \<le> nat \<lfloor>width / characterWidth\<rfloor>"
    unfolding len using first by linarith
  then have "take (nat \<lfloor>width / characterWidth\<rfloor>) ''ns'' = ''ns''"
    by (rule take_all)
  moreover have "\<not> \<lfloor>width / characterWidth\<rfloor> < 0" using first by linarith
  ultimately have s1: "sliceTo ''ns'' (BFinite \<lfloor>width / characterWidth\<rfloor>) = ''ns''"
    unfolding sliceTo_def by (simp only: budget.case if_False simp_thms)
  have "\<not> int (length ''ns'') > \<lfloor>width / characterWidth\<rfloor>"
    unfolding len using first by linarith
  then have l1: "\<not> longerThan ''ns'' (BFinite \<lfloor>width / characterWidth\<rfloor>)"
    unfolding longerThan_def by (simp only: budget.case simp_thms)
  have "\<lfloor>width / characterWidth\<rfloor> \<noteq> 0" using first by linarith
  then have f1: "\<not> budgetFalsy (BFinite \<lfloor>width / characterWidth\<rfloor>)"
    unfolding budgetFalsy_def by (simp only: budget.inject budget.distinct simp_thms)
  have step1: "writeTextLoop d (fillStyle c) (font c) characterWidth
        (getCaptions d ''ns::inner::leaf'' b e) width x y (save c)
      = writeTextLoop d (fillStyle c) (font c) characterWidth [?i2, ?i3, ?i4] (width - ?m) (x + ?m) y ?c2"
    unfolding getCaptions_ns_inner_leaf
    by (simp add: b1 s1 l1 f1 orDefault_def fillText_def Let_def del: writeTextLoop.simps(2))
       (simp add: b1 s1 l1 f1 orDefault_def fillText_def Let_def)
  have b2: "budgetOf (width - ?m) characterWidth = BFinite ?k"
    using cw by (simp add: budgetOf_def)
  have ops2: "drawnTexts (ops ?c2) = drawnTexts (ops c) @ [''ns'']"
    by (simp add: fillText_def save_def drawnTexts_append)
  show ?thesis
  proof (intro conjI impI)
    assume k0: "?k = 0"
    have "writeTextLoop d (fillStyle c) (font c) characterWidth [?i2, ?i3, ?i4] (width - ?m) (x + ?m) y ?c2
        = ?c2\<lparr>fillStyle := ''#4d4d4d'', font := ''15px arial''\<rparr>"
      by (simp add: b2 k0 budgetFalsy_def orDefault_def Let_def)
    then show "drawnTexts (ops (writeText d width characterWidth (getCaptions d ''ns::inner::leaf'' b e) x y c))
         = drawnTexts (ops c) @ [''ns'']"
      unfolding writeText_def step1 using ops2 by (simp add: ops_restore)
  next
    assume k1: "1 \<le> ?k"
    let ?c3 = "fillText (take (nat ?k) ''::inner'') (x + ?m) y
                 (?c2\<lparr>fillStyle := ''#4d4d4d'', font := ''15px arial''\<rparr>)"
    let ?m2 = "measureText d ''15px arial'' (take (nat ?k) ''::inner'')"
    have "?k \<noteq> 0" using k1 by linarith
    then have f2: "\<not> budgetFalsy (BFinite ?k)"
      unfolding budgetFalsy_def by (simp only: budget.inject budget.distinct simp_thms)
    have "\<not> ?k < 0" using k1 by linarith
    then have s2: "sliceTo ''::inner'' (BFinite ?k) = take (nat ?k) ''::inner''"
      unfolding sliceTo_def by (simp only: budget.case if_False simp_thms)
    have step2: "writeTextLoop d (fillStyle c) (font c) characterWidth [?i2, ?i3, ?i4] (width - ?m) (x + ?m) y ?c2
        = writeTextLoop d (fillStyle c) (font c) characterWidth [?i3, ?i4]
            (width - ?m - ?m2) (x + ?m + ?m2) y ?c3"
      by (subst writeTextLoop.simps(2)) (simp add: b2 f2 s2 orDefault_def Let_def fillText_def)
    obtain more where more: "ops (writeTextLoop d (fillStyle c) (font c) characterWidth [?i3, ?i4]
            (width - ?m - ?m2) (x + ?m + ?m2) y ?c3) = ops ?c3 @ more"
      using writeTextLoop_ops by blast
    have ops3: "drawnTexts (ops ?c3) = drawnTexts (ops c) @ [''ns'', take (nat ?k) ''::inner'']"
      by (simp add: fillText_def save_def drawnTexts_append)
    have "drawnTexts (ops (writeText d width characterWidth (getCaptions d ''ns::inner::leaf'' b e) x y c))
        = drawnTexts (ops c) @ [''ns'', take (nat ?k) ''::inner''] @ drawnTexts more"
      unfolding writeText_def step1 step2
      by (simp only: ops_restore more drawnTexts_append ops3) simp
    then show "\<exists>more.
          drawnTexts (ops (writeText d width characterWidth (getCaptions d ''ns::inner::leaf'' b e) x y c))
            = drawnTexts (ops c) @ [''ns'', take (nat ?k) ''::inner''] @ more"
      by blast
  qed
qed


theorem writeText_ns_inner_leaf_witness:
  "(10 :: real) \<noteq> 0 \<and> 2 \<le> \<lfloor>(25 :: real) / 10\<rfloor> \<and>
   \<lfloor>(25 - measureText testDrawer ''15px arial'' ''ns'') / 10\<rfloor> = 0 \<and>
   drawnTexts (ops (writeText testDrawer 25 10 (getCaptions testDrawer ''ns::inner::leaf'' 0 1) 5 15
      blankCanvas)) = drawnTexts (ops blankCanvas) @ [''ns''] \<and>
   1 \<le> \<lfloor>(50 - measureText testDrawer ''15px arial'' ''ns'') / 10\<rfloor> \<and>
   (\<exists>more. drawnTexts (ops (writeText testDrawer 50 10 (getCaptions testDrawer ''ns::inner::leaf'' 0 1) 5 15
      blankCanvas)) = drawnTexts (ops blankCanvas) @ [''ns'', take 3 ''::inner''] @ more)"
proof -
  have m: "measureText testDrawer ''15px arial'' ''ns'' = 20" by (simp add: testDrawer_def)
  have cw: "(10 :: real) \<noteq> 0" by simp
  have a1: "2 \<le> \<lfloor>(25 :: real) / 10\<rfloor>" by simp
  have a2: "\<lfloor>(25 - measureText testDrawer ''15px arial'' ''ns'') / 10\<rfloor> = 0" unfolding m by simp
  have b1: "2 \<le> \<lfloor>(50 :: real) / 10\<rfloor>" by simp
  have b2: "\<lfloor>(50 - measureText testDrawer ''15px arial'' ''ns'') / 10\<rfloor> = 3" unfolding m by simp
  have b3: "1 \<le> \<lfloor>(50 - measureText testDrawer ''15px arial'' ''ns'') / 10\<rfloor>" unfolding b2 by simp
  from writeText_ns_inner_leaf[OF cw a1, of testDrawer 0 1 5 15 blankCanvas] a2
  have 1: "drawnTexts (ops (writeText testDrawer 25 10 (getCaptions testDrawer ''ns::inner::leaf'' 0 1) 5 15
      blankCanvas)) = drawnTexts (ops blankCanvas) @ [''ns'']" by blast
  from writeText_ns_inner_leaf[OF cw b1, of testDrawer 0 1 5 15 blankCanvas] b3
  have "\<exists>more. drawnTexts (ops (writeText testDrawer 50 10 (getCaptions testDrawer ''ns::inner::leaf'' 0 1) 5 15
      blankCanvas)) = drawnTexts (ops blankCanvas)
        @ [''ns'', take (nat \<lfloor>(50 - measureText testDrawer ''15px arial'' ''ns'') / 10\<rfloor>) ''::inner''] @ more"
    by blast
  then have 2: "\<exists>more. drawnTexts (ops (writeText testDrawer 50 10 (getCaptions testDrawer ''ns::inner::leaf'' 0 1) 5 15
      blankCanvas)) = drawnTexts (ops blankCanvas) @ [''ns'', take 3 ''::inner''] @ more"
    unfolding b2 by simp
  from cw a1 a2 1 b3 2 show ?thesis by blast
qed

text \<open>
  A segment that is not skippable is cut, not left out: a budget of three characters covers
  the first segment and not the second, and writeText then draws the first character of
  \<open>::inner\<close>.
\<close>

theorem writeText_truncates_counterexample:
  "measureText testDrawer ''15px arial'' ''ns'' = 20 \<and>
   drawnTexts (ops (writeText testDrawer 30 10 (getCaptions testDrawer ''ns::inner::leaf'' 0 1) 5 15
      blankCanvas)) = [''ns'', '':'']"
  by (simp add: getCaptions_ns_inner_leaf writeText_def save_def ops_restore budgetOf_def
      budgetFalsy_def longerThan_def sliceTo_def orDefault_def fillText_def Let_def
      testDrawer_def blankCanvas_def)


section \<open>The concurrency gate of the streamer\<close>

lemma gate_ok_new: "gate_ok (newMetricStreamer store)"
  by (simp add: gate_ok_def newMetricStreamer_def)

lemma gate_ok_acquire: "gate_ok s \<Longrightarrow> gate_ok (acquire t s)"
  by (auto simp: gate_ok_def acquire_def startFetch_def)

lemma gate_ok_acquire_all: "gate_ok s \<Longrightarrow> gate_ok (foldl (\<lambda>s' t. acquire t s') s ts)"
  by (induction ts arbitrary: s) (simp_all add: gate_ok_acquire)

lemma gate_ok_fetchSelectedMetrics: "gate_ok s \<Longrightarrow> gate_ok (fetchSelectedMetrics api lod s)"
  by (simp add: fetchSelectedMetrics_def gate_ok_acquire_all)

lemma gate_ok_tick: "gate_ok s \<Longrightarrow> gate_ok (tick api lod mn mx s)"
  unfolding tick_def by (rule gate_ok_fetchSelectedMetrics) (simp add: gate_ok_def)

lemma gate_ok_initialize: "gate_ok s \<Longrightarrow> gate_ok (step api s (Initialize replies))"
  by (simp add: initializeAsync_def gate_ok_def Let_def split: option.splits)

text \<open>A holder that leaves and releases its unit keeps the gate in order.\<close>

lemma gate_ok_release:
  assumes "0 \<le> permits s" and "permits s + int (length (inFlight s)) = 7"
    and "waiting s = [] \<or> permits s = 0"
  shows "gate_ok (release s)"
  using assms by (auto simp: gate_ok_def release_def startFetch_def split: list.splits)

lemma length_remove_nth:
  "i < length xs \<Longrightarrow> int (length (take i xs @ drop (Suc i) xs)) = int (length xs) - 1"
  by simp

lemma gate_ok_settle: "gate_ok s \<Longrightarrow> gate_ok (settle api i r s)"
proof (cases "i < length (inFlight s)")
  case False
  assume "gate_ok s"
  with False show ?thesis by (simp add: settle_def)
next
  case True
  assume ok: "gate_ok s"
  let ?s1 = "s\<lparr>inFlight := take i (inFlight s) @ drop (Suc i) (inFlight s)\<rparr>"
  let ?s2 = "case r of
      Data blockData \<Rightarrow>
        ?s1\<lparr>metricStore :=
             storeRegisterBlock api blockData (blockId (task_block (inFlight s ! i)))
               (task_metric (inFlight s ! i)) (metricStore ?s1)\<rparr>
    | NoData \<Rightarrow> ?s1
    | Rejected \<Rightarrow> ?s1"
  have p: "permits ?s2 = permits s" "waiting ?s2 = waiting s"
    "inFlight ?s2 = take i (inFlight s) @ drop (Suc i) (inFlight s)"
    by (cases r; simp)+
  have "gate_ok (release ?s2)"
  proof (rule gate_ok_release)
    show "0 \<le> permits ?s2" using ok by (simp add: p gate_ok_def)
    show "permits ?s2 + int (length (inFlight ?s2)) = 7"
      unfolding p using ok True length_remove_nth[OF True] by (simp add: gate_ok_def)
    show "waiting ?s2 = [] \<or> permits ?s2 = 0"
      using ok by (simp add: p gate_ok_def)
  qed
  then show ?thesis using True by (simp add: settle_def Let_def)
qed

lemma gate_ok_step: "gate_ok s \<Longrightarrow> gate_ok (step api s ev)"
  by (cases ev) (simp_all add: gate_ok_initialize gate_ok_tick gate_ok_settle del: step.simps(1))

lemma gate_ok_run: "gate_ok s \<Longrightarrow> gate_ok (run api events s)"
  unfolding run_def by (induction events arbitrary: s) (simp_all add: gate_ok_step)

text \<open>
  C4. Whatever the store holds, whatever the metric operations answer and whatever happens
  to a new streamer (manifests arrive or fail to, ticks, fetches that end with data, with nothing or
  with an error, in any order and number), the tasks that have acquired a unit of the
  semaphore and not released it are never more than 8.
\<close>

theorem holders_never_exceed_capacity:
  "length (inFlight (run api events (newMetricStreamer store))) \<le> 8"
proof -
  have "gate_ok (run api events (newMetricStreamer store))"
    by (rule gate_ok_run) (rule gate_ok_new)
  then show ?thesis by (simp add: gate_ok_def)
qed


section \<open>A fetch that fails, and a tick with nothing missing\<close>

lemma settle_unfold:
  "i < length (inFlight s) \<Longrightarrow>
   settle api i Rejected s = release (s\<lparr>inFlight := take i (inFlight s) @ drop (Suc i) (inFlight s)\<rparr>)"
  by (simp add: settle_def Let_def)

lemma metricStore_release: "metricStore (release s) = metricStore s"
  by (simp add: release_def startFetch_def split: list.splits)

lemma mset_remove_nth:
  "i < length xs \<Longrightarrow> mset (take i xs @ drop (Suc i) xs) + {#xs ! i#} = mset xs"
proof -
  assume i: "i < length xs"
  have "xs = take i xs @ xs ! i # drop (Suc i) xs" using i by (rule id_take_nth_drop)
  then have "mset xs = mset (take i xs @ xs ! i # drop (Suc i) xs)" by simp
  then show ?thesis by simp
qed

lemma release_pending:
  "mset (inFlight (release s) @ waiting (release s)) = mset (inFlight s @ waiting s)"
  by (simp add: release_def startFetch_def split: list.splits)

lemma settle_pending:
  assumes i: "i < length (inFlight s)"
  shows "mset (inFlight (settle api i r s) @ waiting (settle api i r s)) + {#inFlight s ! i#}
       = mset (inFlight s @ waiting s)"
proof -
  let ?s1 = "s\<lparr>inFlight := take i (inFlight s) @ drop (Suc i) (inFlight s)\<rparr>"
  let ?s2 = "case r of
      Data blockData \<Rightarrow>
        ?s1\<lparr>metricStore :=
             storeRegisterBlock api blockData (blockId (task_block (inFlight s ! i)))
               (task_metric (inFlight s ! i)) (metricStore ?s1)\<rparr>
    | NoData \<Rightarrow> ?s1
    | Rejected \<Rightarrow> ?s1"
  have p: "permits ?s2 = permits s" "waiting ?s2 = waiting s"
    "inFlight ?s2 = take i (inFlight s) @ drop (Suc i) (inFlight s)"
    by (cases r; simp)+
  have e: "settle api i r s = release ?s2" using i by (simp add: settle_def Let_def)
  have "mset (inFlight (release ?s2) @ waiting (release ?s2))
      = mset (inFlight ?s2 @ waiting ?s2)"
    by (rule release_pending)
  then show ?thesis
    unfolding e p using mset_remove_nth[OF i] by simp
qed

text \<open>Every pending fetch can still end: when the fetches in flight end one after the other, nothing is left.\<close>

lemma drain:
  assumes "gate_ok s" and "length (inFlight s) + length (waiting s) = n"
  shows "inFlight (run api (replicate n (Settle 0 r)) s) = [] \<and>
         waiting (run api (replicate n (Settle 0 r)) s) = []"
  using assms
proof (induction n arbitrary: s)
  case 0
  then show ?case by (simp add: run_def)
next
  case (Suc n)
  have nonempty: "inFlight s \<noteq> []"
  proof
    assume e: "inFlight s = []"
    then have "permits s = 8" using Suc.prems(1) by (simp add: gate_ok_def)
    then have "waiting s = []" using Suc.prems(1) by (simp add: gate_ok_def)
    with e Suc.prems(2) show False by simp
  qed
  then have i: "0 < length (inFlight s)" by simp
  let ?s' = "settle api 0 r s"
  have "size (mset (inFlight ?s' @ waiting ?s') + {#inFlight s ! 0#})
      = size (mset (inFlight s @ waiting s))"
    using settle_pending[OF i, of api r] by simp
  then have n: "length (inFlight ?s') + length (waiting ?s') = n"
    using Suc.prems(2) by simp
  have ok: "gate_ok ?s'" using Suc.prems(1) by (rule gate_ok_settle)
  have "run api (replicate (Suc n) (Settle 0 r)) s = run api (replicate n (Settle 0 r)) ?s'"
    by (simp add: run_def)
  then show ?case using Suc.IH[OF ok n] by simp
qed

text \<open>
  C5. In any state that a new streamer can reach, let the fetch of a task in flight end with
  an error. Then \<open>registerBlock\<close> is not called (the store is what it was), the task holds its
  unit no more (the unit is free again, or the first waiting task has it and is in flight),
  every other task is still in flight or waiting, a sibling whose fetch then ends with data
  is registered, and all the pending fetches can still end.
\<close>

theorem failed_fetch_is_isolated:
  assumes s: "s = run api events (newMetricStreamer store)"
    and i: "i < length (inFlight s)"
    and s': "s' = settle api i Rejected s"
  shows "metricStore s' = metricStore s \<and>
     mset (inFlight s' @ waiting s') + {#inFlight s ! i#}
       = mset (inFlight s @ waiting s) \<and>
     (waiting s = [] \<longrightarrow>
        permits s' = permits s + 1 \<and> inFlight s' = take i (inFlight s) @ drop (Suc i) (inFlight s)) \<and>
     (waiting s \<noteq> [] \<longrightarrow>
        permits s' = permits s \<and>
        inFlight s' = take i (inFlight s) @ drop (Suc i) (inFlight s) @ [hd (waiting s)] \<and>
        waiting s' = tl (waiting s)) \<and>
     (\<forall>j. j < length (inFlight s') \<longrightarrow>
        metricStore (settle api j (Data blockData) s')
          = storeRegisterBlock api blockData (blockId (task_block (inFlight s' ! j)))
              (task_metric (inFlight s' ! j)) (metricStore s)) \<and>
     inFlight (run api (replicate (length (inFlight s') + length (waiting s'))
        (Settle 0 (Data blockData))) s') = [] \<and>
     waiting (run api (replicate (length (inFlight s') + length (waiting s'))
        (Settle 0 (Data blockData))) s') = []"
proof -
  have ok: "gate_ok s" unfolding s by (rule gate_ok_run) (rule gate_ok_new)
  have ok': "gate_ok s'" unfolding s' using ok by (rule gate_ok_settle)
  let ?s1 = "s\<lparr>inFlight := take i (inFlight s) @ drop (Suc i) (inFlight s)\<rparr>"
  have e: "s' = release ?s1" unfolding s' using i by (rule settle_unfold)
  have store: "metricStore s' = metricStore s"
    unfolding e by (simp add: metricStore_release)
  have pending: "mset (inFlight s' @ waiting s') + {#inFlight s ! i#}
       = mset (inFlight s @ waiting s)"
    unfolding s' using i by (rule settle_pending)
  have free: "waiting s = [] \<longrightarrow>
        permits s' = permits s + 1 \<and> inFlight s' = take i (inFlight s) @ drop (Suc i) (inFlight s)"
    unfolding e by (simp add: release_def)
  have handed: "waiting s \<noteq> [] \<longrightarrow>
        permits s' = permits s \<and>
        inFlight s' = take i (inFlight s) @ drop (Suc i) (inFlight s) @ [hd (waiting s)] \<and>
        waiting s' = tl (waiting s)"
  proof
    assume q: "waiting s \<noteq> []"
    then show "permits s' = permits s \<and>
        inFlight s' = take i (inFlight s) @ drop (Suc i) (inFlight s) @ [hd (waiting s)] \<and>
        waiting s' = tl (waiting s)"
      unfolding e by (cases "waiting s") (simp_all add: release_def startFetch_def)
  qed
  have sibling: "\<forall>j. j < length (inFlight s') \<longrightarrow>
        metricStore (settle api j (Data blockData) s')
          = storeRegisterBlock api blockData (blockId (task_block (inFlight s' ! j)))
              (task_metric (inFlight s' ! j)) (metricStore s)"
    by (simp add: settle_def Let_def metricStore_release store)
  have drained: "inFlight (run api (replicate (length (inFlight s') + length (waiting s'))
        (Settle 0 (Data blockData))) s') = [] \<and>
     waiting (run api (replicate (length (inFlight s') + length (waiting s'))
        (Settle 0 (Data blockData))) s') = []"
    using ok' by (rule drain) simp
  from store pending free handed sibling drained show ?thesis by blast
qed

text \<open>
  C6. When \<open>requestMissingBlocks\<close> returns no block for every metric that can be displayed,
  fetchSelectedMetrics returns the streamer as it was: the store, the gate, the tasks and
  the list of the requests sent are unchanged.
\<close>

theorem fetchSelectedMetrics_nothing_missing:
  assumes "\<forall>m \<in> set (filter (canBeDisplayed api) (metricStore s)).
             requestMissingBlocks api m (currentMinMs s) (currentMaxMs s) lod = []"
  shows "fetchSelectedMetrics api lod s = s"
proof -
  have "concat (map snd (missingBlocks api lod s)) = []"
    using assms by (simp add: missingBlocks_def)
  then show ?thesis by (simp add: fetchSelectedMetrics_def)
qed

text \<open>
  C7. \<open>Math.min\<close> and \<open>Math.max\<close> of no argument are \<open>Infinity\<close> and \<open>-Infinity\<close>: neither is NaN and
  the maximum is below the minimum. So when the manifests have arrived, initializeAsync
  returns without an exception, and when the store holds no metric after \<open>registerMetrics\<close>
  it leaves \<open>currentMinMs = Infinity\<close> and \<open>currentMaxMs = -Infinity\<close>.
\<close>

theorem empty_registry_range_is_sentinel:
  "Math_min [] = Infinity \<and> Math_max [] = NegInfinity \<and>
   num_less (Math_max []) (Math_min []) \<and> Math_min [] \<noteq> NaN \<and> Math_max [] \<noteq> NaN \<and>
   (\<exists>s'. initializeAsync api (Some blockManifests) s = Inr s' \<and>
      (metricStore s' = [] \<longrightarrow> currentMinMs s' = Infinity \<and> currentMaxMs s' = NegInfinity))"
  by (simp add: Math_min_def Math_max_def initializeAsync_def Let_def)


lemma busyStreamer_value:
  "busyStreamer =
     \<lparr>currentMinMs = Finite 0, currentMaxMs = Finite 100, metricStore = [nineBlocks, noBlocks],
      client = False, permits = 0,
      waiting = [\<lparr>task_metric = ''cpu'', task_block = mkBlock ''b9'', task_lod = 0\<rparr>],
      inFlight = map (\<lambda>b. \<lparr>task_metric = ''cpu'', task_block = mkBlock b, task_lod = 0\<rparr>)
        [''b1'', ''b2'', ''b3'', ''b4'', ''b5'', ''b6'', ''b7'', ''b8''],
      requests = []\<rparr>"
  by (simp add: busyStreamer_def run_def tick_def fetchSelectedMetrics_def missingBlocks_def
      fetchTasks_def testOps_def nineBlocks_def noBlocks_def newMetricStreamer_def acquire_def
      startFetch_def)

theorem holders_never_exceed_capacity_witness:
  "length (inFlight (run testOps [Tick 0 (Finite 0) (Finite 100)]
      (newMetricStreamer [nineBlocks, noBlocks]))) \<le> 8 \<and>
   length (inFlight busyStreamer) = 8 \<and> length (waiting busyStreamer) = 1"
  using holders_never_exceed_capacity[of testOps "[Tick 0 (Finite 0) (Finite 100)]" "[nineBlocks, noBlocks]"]
  by (simp add: busyStreamer_value)

lemma quietStreamer_value:
  "quietStreamer =
     \<lparr>currentMinMs = Finite 0, currentMaxMs = Finite 100, metricStore = [twoBlocks],
      client = False, permits = 6, waiting = [],
      inFlight = map (\<lambda>b. \<lparr>task_metric = ''gpu'', task_block = mkBlock b, task_lod = 0\<rparr>)
        [''g1'', ''g2''],
      requests = []\<rparr>"
  by (simp add: quietStreamer_def run_def tick_def fetchSelectedMetrics_def missingBlocks_def
      fetchTasks_def testOps_def twoBlocks_def newMetricStreamer_def acquire_def startFetch_def)

theorem failed_fetch_is_isolated_witness:
  "busyStreamer = run testOps [Tick 0 (Finite 0) (Finite 100)] (newMetricStreamer [nineBlocks, noBlocks]) \<and>
   2 < length (inFlight busyStreamer) \<and>
   metricStore (settle testOps 2 Rejected busyStreamer) = metricStore busyStreamer \<and>
   waiting busyStreamer \<noteq> [] \<and>
   permits (settle testOps 2 Rejected busyStreamer) = permits busyStreamer \<and>
   map (blockId \<circ> task_block) (inFlight (settle testOps 2 Rejected busyStreamer))
     = [''b1'', ''b2'', ''b4'', ''b5'', ''b6'', ''b7'', ''b8'', ''b9''] \<and>
   waiting (settle testOps 2 Rejected busyStreamer) = [] \<and>
   7 < length (inFlight (settle testOps 2 Rejected busyStreamer)) \<and>
   map tm_missing (metricStore (settle testOps 7 (Data ''payload'') (settle testOps 2 Rejected busyStreamer)))
     = [map mkBlock [''b1'', ''b2'', ''b3'', ''b4'', ''b5'', ''b6'', ''b7'', ''b8''], []] \<and>
   inFlight (run testOps (replicate
       (length (inFlight (settle testOps 2 Rejected busyStreamer))
          + length (waiting (settle testOps 2 Rejected busyStreamer)))
       (Settle 0 (Data ''payload''))) (settle testOps 2 Rejected busyStreamer)) = [] \<and>
   quietStreamer = run testOps [Tick 0 (Finite 0) (Finite 100)] (newMetricStreamer [twoBlocks]) \<and>
   0 < length (inFlight quietStreamer) \<and> waiting quietStreamer = [] \<and>
   permits (settle testOps 0 Rejected quietStreamer) = permits quietStreamer + 1 \<and>
   map (blockId \<circ> task_block) (inFlight (settle testOps 0 Rejected quietStreamer)) = [''g2'']"
proof -
  let ?s' = "settle testOps 2 Rejected busyStreamer"
  have s: "busyStreamer = run testOps [Tick 0 (Finite 0) (Finite 100)] (newMetricStreamer [nineBlocks, noBlocks])"
    by (rule busyStreamer_def)
  have i: "2 < length (inFlight busyStreamer)" by (simp add: busyStreamer_value)
  have q: "waiting busyStreamer \<noteq> []" by (simp add: busyStreamer_value)
  note t = failed_fetch_is_isolated[OF s i refl, of "''payload''"]
  from t have 1: "metricStore ?s' = metricStore busyStreamer"
    by blast
  from t q have 2: "permits ?s' = permits busyStreamer"
    and 3: "inFlight ?s'
      = take 2 (inFlight busyStreamer) @ drop (Suc 2) (inFlight busyStreamer)
          @ [hd (waiting busyStreamer)]"
    and 4: "waiting ?s' = tl (waiting busyStreamer)"
    by blast+
  have 5: "map (blockId \<circ> task_block) (inFlight ?s')
     = [''b1'', ''b2'', ''b4'', ''b5'', ''b6'', ''b7'', ''b8'', ''b9'']"
    unfolding 3 by (simp add: busyStreamer_value mkBlock_def)
  have 6: "waiting ?s' = []"
    unfolding 4 by (simp add: busyStreamer_value)
  have j: "7 < length (inFlight ?s')"
    unfolding 3 by (simp add: busyStreamer_value)
  from t j have "metricStore (settle testOps 7 (Data ''payload'') ?s')
      = storeRegisterBlock testOps ''payload'' (blockId (task_block (inFlight ?s' ! 7)))
          (task_metric (inFlight ?s' ! 7)) (metricStore busyStreamer)"
    by blast
  then have 8: "map tm_missing (metricStore (settle testOps 7 (Data ''payload'') ?s'))
     = [map mkBlock [''b1'', ''b2'', ''b3'', ''b4'', ''b5'', ''b6'', ''b7'', ''b8''], []]"
    unfolding 3
    by (simp add: busyStreamer_value testOps_def nineBlocks_def noBlocks_def mkBlock_def)
  from t have 7: "inFlight (run testOps (replicate
       (length (inFlight ?s') + length (waiting ?s'))
       (Settle 0 (Data ''payload''))) ?s') = []"
    by blast
  have s2: "quietStreamer = run testOps [Tick 0 (Finite 0) (Finite 100)] (newMetricStreamer [twoBlocks])"
    by (rule quietStreamer_def)
  have i2: "0 < length (inFlight quietStreamer)" by (simp add: quietStreamer_value)
  have q2: "waiting quietStreamer = []" by (simp add: quietStreamer_value)
  note t2 = failed_fetch_is_isolated[OF s2 i2 refl, of "''payload''"]
  from t2 q2 have 9: "permits (settle testOps 0 Rejected quietStreamer) = permits quietStreamer + 1"
    and 10: "inFlight (settle testOps 0 Rejected quietStreamer)
      = take 0 (inFlight quietStreamer) @ drop (Suc 0) (inFlight quietStreamer)"
    by blast+
  have 11: "map (blockId \<circ> task_block) (inFlight (settle testOps 0 Rejected quietStreamer)) = [''g2'']"
    unfolding 10 by (simp add: quietStreamer_value mkBlock_def)
  from s i 1 q 2 5 6 j 8 7 s2 i2 q2 9 11 show ?thesis by blast
qed

theorem fetchSelectedMetrics_nothing_missing_witness:
  "list_all (\<lambda>m. requestMissingBlocks testOps m (currentMinMs (newMetricStreamer [noBlocks]))
       (currentMaxMs (newMetricStreamer [noBlocks])) 0 = [])
     (filter (canBeDisplayed testOps) (metricStore (newMetricStreamer [noBlocks]))) \<and>
   fetchSelectedMetrics testOps 0 (newMetricStreamer [noBlocks]) = newMetricStreamer [noBlocks]"
proof -
  have h: "\<forall>m \<in> set (filter (canBeDisplayed testOps) (metricStore (newMetricStreamer [noBlocks]))).
       requestMissingBlocks testOps m (currentMinMs (newMetricStreamer [noBlocks]))
         (currentMaxMs (newMetricStreamer [noBlocks])) 0 = []"
    by (simp add: testOps_def newMetricStreamer_def noBlocks_def)
  from fetchSelectedMetrics_nothing_missing[OF h] h show ?thesis
    by (simp add: list_all_iff)
qed

theorem empty_registry_range_is_sentinel_witness:
  "\<exists>s'. initializeAsync testOps (Some []) (newMetricStreamer []) = Inr s' \<and>
      metricStore s' = [] \<and> currentMinMs s' = Infinity \<and> currentMaxMs s' = NegInfinity \<and>
      num_less (currentMaxMs s') (currentMinMs s')"
proof -
  from empty_registry_range_is_sentinel[of testOps "[]" "newMetricStreamer []"]
  obtain s' where s': "initializeAsync testOps (Some []) (newMetricStreamer []) = Inr s'"
    and r: "metricStore s' = [] \<longrightarrow> currentMinMs s' = Infinity \<and> currentMaxMs s' = NegInfinity"
    by blast
  have "metricStore s' = []"
    using s' by (auto simp: initializeAsync_def testOps_def newMetricStreamer_def)
  with s' r show ?thesis by auto
qed


section \<open>Registration into the coverage tracker\<close>

lemma covered_Nil: "covered [] = {}"
  by (simp add: covered_def)

lemma covered_Cons: "covered ((s, e) # xs) = {s .. e} \<union> covered xs"
  by (simp add: covered_def)

lemma canonical_Nil: "canonical []"
  by (simp add: canonical_def)

lemma canonical_Cons:
  "canonical ((s, e) # xs) \<longleftrightarrow> s \<le> e \<and> (\<forall>(s', e') \<in> set xs. e < s') \<and> canonical xs"
  by (auto simp: canonical_def)

lemma canonical_wf: "canonical xs \<Longrightarrow> (a, b) \<in> set xs \<Longrightarrow> a \<le> b"
  by (auto simp: canonical_def list_all_iff)

text \<open>The points of the tail lie after the end of the head.\<close>

lemma covered_after_head:
  assumes "canonical ((s, e) # xs)" and "x \<in> covered xs"
  shows "e < x"
proof -
  from assms(2) obtain a b where ab: "(a, b) \<in> set xs" "a \<le> x" "x \<le> b"
    by (auto simp: covered_def)
  from assms(1) ab(1) have "e < a" by (auto simp: canonical_Cons)
  with ab(2) show ?thesis by simp
qed

lemma covered_gap:
  assumes "canonical ((s, e) # xs)"
  shows "\<exists>lb. e < lb \<and> (\<forall>x \<in> covered xs. lb \<le> x)"
proof (cases xs)
  case Nil
  then have "e < e + 1 \<and> (\<forall>x \<in> covered xs. e + 1 \<le> x)" by (simp add: covered_Nil)
  then show ?thesis by blast
next
  case (Cons p r)
  obtain s2 e2 where p: "p = (s2, e2)" by (cases p)
  have c2: "canonical ((s2, e2) # r)" and lt: "e < s2"
    using assms by (simp_all add: Cons p canonical_Cons)
  have "\<forall>x \<in> covered xs. s2 \<le> x"
  proof
    fix x assume "x \<in> covered xs"
    then consider "x \<in> {s2 .. e2}" | "x \<in> covered r" by (auto simp: Cons p covered_Cons)
    then show "s2 \<le> x"
    proof cases
      case 1
      then show ?thesis by simp
    next
      case 2
      then have "e2 < x" using c2 by (rule covered_after_head[rotated])
      moreover have "s2 \<le> e2" using c2 by (simp add: canonical_Cons)
      ultimately show ?thesis by simp
    qed
  qed
  with lt show ?thesis by blast
qed

lemma head_start_le:
  assumes cx: "canonical ((s, e) # xs)" and cy: "canonical ((s', e') # ys)"
    and eq: "covered ((s, e) # xs) = covered ((s', e') # ys)"
  shows "s' \<le> s"
proof -
  have "s \<le> e" using cx by (simp add: canonical_Cons)
  then have "s \<in> covered ((s, e) # xs)" by (simp add: covered_Cons)
  then have "s \<in> covered ((s', e') # ys)" by (simp only: eq)
  then have "s \<in> {s' .. e'} \<union> covered ys" by (simp only: covered_Cons)
  then consider "s' \<le> s" | "s \<in> covered ys" by auto
  then show ?thesis
  proof cases
    case 1
    then show ?thesis .
  next
    case 2
    then have "e' < s" using cy by (rule covered_after_head[rotated])
    moreover have "s' \<le> e'" using cy by (simp add: canonical_Cons)
    ultimately show ?thesis by simp
  qed
qed

lemma head_end_le:
  assumes cx: "canonical ((s, e) # xs)" and cy: "canonical ((s, e') # ys)"
    and eq: "covered ((s, e) # xs) = covered ((s, e') # ys)"
  shows "e' \<le> e"
proof (rule ccontr)
  assume "\<not> e' \<le> e"
  then have lt: "e < e'" by simp
  obtain lb where lb: "e < lb" "\<forall>x \<in> covered xs. lb \<le> x"
    using covered_gap[OF cx] by blast
  define m where "m = (e + min lb e') / 2"
  have m: "e < m" "m < lb" "m < e'"
    using lt lb(1) by (simp_all add: m_def min_def)
  have "s \<le> e" using cx by (simp add: canonical_Cons)
  then have "m \<in> {s .. e'}" using m by simp
  then have "m \<in> covered ((s, e) # xs)" unfolding eq by (simp add: covered_Cons)
  then have "m \<in> covered xs" using m(1) by (simp add: covered_Cons)
  then have "lb \<le> m" using lb(2) by blast
  with m(2) show False by simp
qed

lemma covered_tail:
  assumes "canonical ((s, e) # xs)"
  shows "covered xs = covered ((s, e) # xs) - {s .. e}"
proof -
  have "x \<notin> {s .. e}" if "x \<in> covered xs" for x
    using covered_after_head[OF assms that] by simp
  then show ?thesis by (auto simp: covered_Cons)
qed

text \<open>Two coverage lists in order that cover the same points are the same list.\<close>

lemma canonical_unique:
  "canonical xs \<Longrightarrow> canonical ys \<Longrightarrow> covered xs = covered ys \<Longrightarrow> xs = ys"
proof (induction xs arbitrary: ys)
  case Nil
  show ?case
  proof (cases ys)
    case Nil
    then show ?thesis by simp
  next
    case (Cons p r)
    obtain a b where p: "p = (a, b)" by (cases p)
    have "a \<le> b" using Nil.prems(2) by (simp add: Cons p canonical_Cons)
    then have "a \<in> covered ys" by (simp add: Cons p covered_Cons)
    then show ?thesis using Nil.prems(3) by (simp add: covered_Nil)
  qed
next
  case (Cons p xs)
  obtain s e where p: "p = (s, e)" by (cases p)
  have cx: "canonical ((s, e) # xs)" using Cons.prems(1) by (simp add: p)
  then have se: "s \<le> e" by (simp add: canonical_Cons)
  show ?case
  proof (cases ys)
    case Nil
    have "s \<in> covered (p # xs)" using se by (simp add: p covered_Cons)
    then show ?thesis using Cons.prems(3) by (simp add: Nil covered_Nil)
  next
    case (Cons q r)
    obtain s' e' where q: "q = (s', e')" by (cases q)
    have cy: "canonical ((s', e') # r)" using Cons.prems(2) by (simp add: Cons q)
    have eq: "covered ((s, e) # xs) = covered ((s', e') # r)"
      using Cons.prems(3) by (simp add: Cons p q)
    have "s' \<le> s" using cx cy eq by (rule head_start_le)
    moreover have "s \<le> s'" using cy cx eq[symmetric] by (rule head_start_le)
    ultimately have s: "s' = s" by simp
    have "e' \<le> e" using cx cy[unfolded s] eq[unfolded s] by (rule head_end_le)
    moreover have "e \<le> e'" using cy[unfolded s] cx eq[unfolded s, symmetric] by (rule head_end_le)
    ultimately have e: "e' = e" by simp
    have "covered xs = covered ((s, e) # xs) - {s .. e}" using cx by (rule covered_tail)
    also have "\<dots> = covered ((s', e') # r) - {s' .. e'}" using eq by (simp add: s e)
    also have "\<dots> = covered r" using cy by (rule covered_tail[symmetric])
    finally have "covered xs = covered r" .
    moreover have "canonical xs" "canonical r" using cx cy by (simp_all add: canonical_Cons)
    ultimately have "xs = r" by (intro Cons.IH)
    then show ?thesis by (simp add: Cons p q s e)
  qed
qed

text \<open>Merging keeps the list in order and adds exactly the points of the interval.\<close>

lemma mergeInterval_lower:
  "lb < s \<Longrightarrow> \<forall>(a, b) \<in> set xs. lb < a \<Longrightarrow> \<forall>(a, b) \<in> set (mergeInterval (s, e) xs). lb < a"
proof (induction xs arbitrary: s e)
  case Nil
  then show ?case by simp
next
  case (Cons p xs)
  obtain s' e' where p: "p = (s', e')" by (cases p)
  have lbs': "lb < s'" and rest: "\<forall>(a, b) \<in> set xs. lb < a"
    using Cons.prems(2) by (simp_all add: p)
  have 1: "\<forall>(a, b) \<in> set (mergeInterval (s, e) xs). lb < a"
    using Cons.prems(1) rest by (rule Cons.IH)
  have "lb < min s s'" using Cons.prems(1) lbs' by simp
  then have 2: "\<forall>(a, b) \<in> set (mergeInterval (min s s', max e e') xs). lb < a"
    using rest by (rule Cons.IH)
  show ?case using Cons.prems 1 2 lbs' by (simp add: p)
qed

lemma canonical_mergeInterval:
  "s \<le> e \<Longrightarrow> canonical xs \<Longrightarrow> canonical (mergeInterval (s, e) xs)"
proof (induction xs arbitrary: s e)
  case Nil
  then show ?case by (simp add: canonical_Cons canonical_Nil)
next
  case (Cons p xs)
  obtain s' e' where p: "p = (s', e')" by (cases p)
  have c: "s' \<le> e'" "\<forall>(a, b) \<in> set xs. e' < a" "canonical xs"
    using Cons.prems(2) by (simp_all add: p canonical_Cons)
  consider (before) "e < s'" | (after) "\<not> e < s'" "e' < s" | (meet) "\<not> e < s'" "\<not> e' < s"
    by blast
  then show ?case
  proof cases
    case before
    have "\<forall>(a, b) \<in> set xs. e < a" using c before by auto
    then show ?thesis using before Cons.prems c by (simp add: p canonical_Cons)
  next
    case after
    have "canonical (mergeInterval (s, e) xs)" using Cons.prems(1) c(3) by (rule Cons.IH)
    moreover have "\<forall>(a, b) \<in> set (mergeInterval (s, e) xs). e' < a"
      using after(2) c(2) by (rule mergeInterval_lower)
    ultimately show ?thesis using after c(1) by (simp add: p canonical_Cons)
  next
    case meet
    have "min s s' \<le> max e e'" using Cons.prems(1) c(1) by simp
    then have "canonical (mergeInterval (min s s', max e e') xs)" using c(3) by (rule Cons.IH)
    then show ?thesis using meet by (simp add: p)
  qed
qed

lemma covered_mergeInterval:
  "s \<le> e \<Longrightarrow> canonical xs \<Longrightarrow> covered (mergeInterval (s, e) xs) = {s .. e} \<union> covered xs"
proof (induction xs arbitrary: s e)
  case Nil
  then show ?case by (simp add: covered_Cons covered_Nil)
next
  case (Cons p xs)
  obtain s' e' where p: "p = (s', e')" by (cases p)
  have c: "s' \<le> e'" "canonical xs"
    using Cons.prems(2) by (simp_all add: p canonical_Cons)
  consider (before) "e < s'" | (after) "\<not> e < s'" "e' < s" | (meet) "\<not> e < s'" "\<not> e' < s"
    by blast
  then show ?case
  proof cases
    case before
    then show ?thesis by (simp add: p covered_Cons)
  next
    case after
    have "covered (mergeInterval (s, e) xs) = {s .. e} \<union> covered xs"
      using Cons.prems(1) c(2) by (rule Cons.IH)
    then show ?thesis using after by (auto simp: p covered_Cons)
  next
    case meet
    have "min s s' \<le> max e e'" using Cons.prems(1) c(1) by simp
    then have "covered (mergeInterval (min s s', max e e') xs)
        = {min s s' .. max e e'} \<union> covered xs"
      using c(2) by (rule Cons.IH)
    moreover have "{min s s' .. max e e'} = {s .. e} \<union> {s' .. e'}"
      using meet Cons.prems(1) c(1) by (auto simp: min_def max_def)
    ultimately show ?thesis using meet by (simp add: p covered_Cons Un_assoc)
  qed
qed


lemma registerBlock_known: "known (registerBlock samples bid t) = known t"
  by (simp add: registerBlock_def split: option.splits)

lemma registerBlock_materialized:
  "materialized (registerBlock samples bid t) = materialized t \<union> blockMarks (known t) bid"
  by (simp add: registerBlock_def blockMarks_def split: option.splits)

lemma known_block_wf:
  assumes "tracker_ok t" and "find (\<lambda>b. ref_blockId b = bid) (known t) = Some b"
  shows "ref_startMs b \<le> ref_endMs b"
proof -
  from assms(2) have "b \<in> set (known t)" by (auto simp: find_Some_iff)
  with assms(1) show ?thesis by (simp add: tracker_ok_def list_all_iff)
qed

lemma registerBlock_ok:
  assumes ok: "tracker_ok t"
  shows "tracker_ok (registerBlock samples bid t)"
proof (cases "find (\<lambda>b. ref_blockId b = bid) (known t)")
  case None
  then show ?thesis using ok by (simp add: registerBlock_def)
next
  case (Some b)
  have wf: "ref_startMs b \<le> ref_endMs b" using ok Some by (rule known_block_wf)
  have "canonical (coverage t (ref_lod b))" using ok by (simp add: tracker_ok_def)
  with wf have "canonical (mergeInterval (ref_startMs b, ref_endMs b) (coverage t (ref_lod b)))"
    by (rule canonical_mergeInterval)
  then show ?thesis using ok Some by (simp add: registerBlock_def tracker_ok_def)
qed

text \<open>Every tracker built from a new one by manifests with well formed time ranges and by registrations is in order.\<close>

lemma newTracker_ok: "tracker_ok newTracker"
  by (simp add: tracker_ok_def newTracker_def canonical_Nil)

lemma registerManifestBlock_ok:
  "ref_startMs b \<le> ref_endMs b \<Longrightarrow> tracker_ok t \<Longrightarrow> tracker_ok (registerManifestBlock b t)"
  by (simp add: tracker_ok_def registerManifestBlock_def)

lemma registerBlock_covered:
  assumes ok: "tracker_ok t"
  shows "covered (coverage (registerBlock samples bid t) l)
       = covered (coverage t l) \<union> blockPoints (known t) l bid"
proof (cases "find (\<lambda>b. ref_blockId b = bid) (known t)")
  case None
  then show ?thesis by (simp add: registerBlock_def blockPoints_def)
next
  case (Some b)
  have wf: "ref_startMs b \<le> ref_endMs b" using ok Some by (rule known_block_wf)
  have "canonical (coverage t (ref_lod b))" using ok by (simp add: tracker_ok_def)
  with wf have "covered (mergeInterval (ref_startMs b, ref_endMs b) (coverage t (ref_lod b)))
      = {ref_startMs b .. ref_endMs b} \<union> covered (coverage t (ref_lod b))"
    by (rule covered_mergeInterval)
  then show ?thesis using Some by (auto simp: registerBlock_def blockPoints_def)
qed

lemma registerBlocks_Nil: "registerBlocks [] t = t"
  by (simp add: registerBlocks_def)

lemma registerBlocks_Cons:
  "registerBlocks ((samples, bid) # regs) t = registerBlocks regs (registerBlock samples bid t)"
  by (simp add: registerBlocks_def)

lemma registerBlocks_summary:
  assumes "tracker_ok t"
  shows "tracker_ok (registerBlocks regs t) \<and>
         known (registerBlocks regs t) = known t \<and>
         materialized (registerBlocks regs t)
           = materialized t \<union> (\<Union>(samples, bid) \<in> set regs. blockMarks (known t) bid) \<and>
         (\<forall>l. covered (coverage (registerBlocks regs t) l)
           = covered (coverage t l) \<union> (\<Union>(samples, bid) \<in> set regs. blockPoints (known t) l bid))"
  using assms
proof (induction regs arbitrary: t)
  case Nil
  then show ?case by (simp add: registerBlocks_Nil)
next
  case (Cons r regs)
  obtain samples bid where r: "r = (samples, bid)" by (cases r)
  let ?t = "registerBlock samples bid t"
  have ok: "tracker_ok ?t" using Cons.prems by (rule registerBlock_ok)
  note IH = Cons.IH[OF ok]
  have k: "known ?t = known t" by (rule registerBlock_known)
  have "tracker_ok (registerBlocks (r # regs) t)"
    using IH by (simp add: r registerBlocks_Cons)
  moreover have "known (registerBlocks (r # regs) t) = known t"
    using IH by (simp add: r registerBlocks_Cons k)
  moreover have "materialized (registerBlocks (r # regs) t)
      = materialized t \<union> (\<Union>(samples, bid) \<in> set (r # regs). blockMarks (known t) bid)"
    using IH by (auto simp: r registerBlocks_Cons k registerBlock_materialized)
  moreover have "\<forall>l. covered (coverage (registerBlocks (r # regs) t) l)
      = covered (coverage t l) \<union> (\<Union>(samples, bid) \<in> set (r # regs). blockPoints (known t) l bid)"
  proof
    fix l
    have "covered (coverage (registerBlocks regs ?t) l)
        = covered (coverage ?t l) \<union> (\<Union>(samples, bid) \<in> set regs. blockPoints (known t) l bid)"
      using IH by (simp add: k)
    also have "covered (coverage ?t l) = covered (coverage t l) \<union> blockPoints (known t) l bid"
      using Cons.prems by (rule registerBlock_covered)
    finally show "covered (coverage (registerBlocks (r # regs) t) l)
      = covered (coverage t l) \<union> (\<Union>(samples, bid) \<in> set (r # regs). blockPoints (known t) l bid)"
      by (auto simp: r registerBlocks_Cons)
  qed
  ultimately show ?case by blast
qed

text \<open>
  C8. On a tracker in order, two lists of registrations that hold the same registrations in
  different orders leave the same tracker: the same known blocks, the same marks and, for
  every level of detail, the same list of covered intervals.
\<close>

theorem registerBlocks_order_independent:
  assumes ok: "tracker_ok t" and perm: "mset regs = mset regs'"
  shows "registerBlocks regs t = registerBlocks regs' t"
proof -
  have set: "set regs = set regs'" using perm by (rule mset_eq_setD)
  note a = registerBlocks_summary[OF ok, of regs] and b = registerBlocks_summary[OF ok, of regs']
  have k: "known (registerBlocks regs t) = known (registerBlocks regs' t)"
    using a b by simp
  have m: "materialized (registerBlocks regs t) = materialized (registerBlocks regs' t)"
    using a b by (simp add: set)
  have c: "coverage (registerBlocks regs t) = coverage (registerBlocks regs' t)"
  proof
    fix l
    have "canonical (coverage (registerBlocks regs t) l)"
      and "canonical (coverage (registerBlocks regs' t) l)"
      using a b by (simp_all add: tracker_ok_def)
    moreover have "covered (coverage (registerBlocks regs t) l)
        = covered (coverage (registerBlocks regs' t) l)"
      using a b by (simp add: set)
    ultimately show "coverage (registerBlocks regs t) l = coverage (registerBlocks regs' t) l"
      by (rule canonical_unique)
  qed
  show ?thesis using k m c by (rule CoverageTracker.equality) simp
qed

lemma freshTracker_ok: "tracker_ok freshTracker"
  by (simp add: tracker_ok_def freshTracker_def mkRef_def canonical_Nil)

theorem registerBlocks_order_independent_witness:
  "tracker_ok freshTracker \<and>
   mset [(''x'', ''a''), (''y'', ''b''), (''z'', ''c'')] = mset [(''z'', ''c''), (''y'', ''b''), (''x'', ''a'')] \<and>
   registerBlocks [(''x'', ''a''), (''y'', ''b''), (''z'', ''c'')] freshTracker
     = registerBlocks [(''z'', ''c''), (''y'', ''b''), (''x'', ''a'')] freshTracker \<and>
   coverage (registerBlocks [(''z'', ''c''), (''y'', ''b''), (''x'', ''a'')] freshTracker) 0
     = [(0, 20), (30, 40)]"
proof -
  have p: "mset [(''x'', ''a''), (''y'', ''b''), (''z'', ''c'')]
      = mset [(''z'', ''c''), (''y'', ''b''), (''x'', ''a'')]"
    by (simp add: add.commute)
  have v: "coverage (registerBlocks [(''z'', ''c''), (''y'', ''b''), (''x'', ''a'')] freshTracker) 0
     = [(0, 20), (30, 40)]"
    by (simp add: registerBlocks_def registerBlock_def freshTracker_def mkRef_def)
  from registerBlocks_order_independent[OF freshTracker_ok p] freshTracker_ok p v
  show ?thesis by blast
qed


end
